theory Spec2Isabelle
  imports Complex_Main "HOL-Library.Word" "HOL-Library.Multiset"
begin

section \<open>Common data: positions, errors, two-dimensional arrays\<close>

text \<open>
  A position is the Python tuple \<open>(x, y)\<close> of two unbounded integers
  (\<open>XY = Tuple[int, int]\<close>). The sentinel \<open>10**9\<close> (the source's \<open>INF\<close> and \<open>inf\<close>) stands for "never" and
  "unreachable" in \<open>stats_wait_collision.py\<close>.
\<close>

type_synonym XY = "int \<times> int"

definition INF_VAL :: nat where
  "INF_VAL = 1000000000"

datatype error = ValueError | IndexError | KeyError | RuntimeError | FileNotFoundError

text \<open>\<open>xs[i]\<close> for a non-negative index: Python raises IndexError out of range.\<close>

definition nth_err :: "'a list \<Rightarrow> nat \<Rightarrow> error + 'a" where
  "nth_err xs i = (if i < length xs then Inr (xs ! i) else Inl IndexError)"

text \<open>
  A numpy array of two dimensions is the list of its rows, \<open>a[y, x]\<close> being
  element \<open>x\<close> of row \<open>y\<close>. \<open>np.sum\<close> adds all the entries.
\<close>

type_synonym 'a ndarray = "'a list list"

definition sum2 :: "int ndarray \<Rightarrow> int" where
  "sum2 a = sum_list (map sum_list a)"

text \<open>
  \<open>H, W = a.shape\<close> (an array without rows has no width here: it counts as 0),
  \<open>np.zeros((H, W))\<close> and \<open>np.full((H, W), v)\<close>, the read \<open>a[y, x]\<close> for indices that
  are not negative, which raises IndexError outside the shape, and the write
  \<open>a[y, x] = v\<close>, which the code only does at a place it has just read or checked.
  \<open>rect a H W\<close> says that \<open>a\<close> has shape \<open>H\<close> by \<open>W\<close>.
\<close>

definition shape_H :: "'a ndarray \<Rightarrow> nat" where
  "shape_H a = length a"

definition shape_W :: "'a ndarray \<Rightarrow> nat" where
  "shape_W a = (case a of [] \<Rightarrow> 0 | r # _ \<Rightarrow> length r)"

definition zeros :: "nat \<Rightarrow> nat \<Rightarrow> ('a::zero) ndarray" where
  "zeros H W = replicate H (replicate W 0)"

definition full :: "nat \<Rightarrow> nat \<Rightarrow> 'a \<Rightarrow> 'a ndarray" where
  "full H W v = replicate H (replicate W v)"

definition get2 :: "'a ndarray \<Rightarrow> nat \<Rightarrow> nat \<Rightarrow> error + 'a" where
  "get2 a y x = (if y < length a \<and> x < length (a ! y) then Inr (a ! y ! x) else Inl IndexError)"

definition set2 :: "'a ndarray \<Rightarrow> nat \<Rightarrow> nat \<Rightarrow> 'a \<Rightarrow> 'a ndarray" where
  "set2 a y x v = a[y := (a ! y)[x := v]]"

definition rect :: "'a ndarray \<Rightarrow> nat \<Rightarrow> nat \<Rightarrow> bool" where
  "rect a H W \<longleftrightarrow> length a = H \<and> (\<forall>r\<in>set a. length r = W)"

section \<open>First-reach times and run metrics (stats_wait_collision.py)\<close>

text \<open>
  The inner loop of \<open>_first_reach_times\<close>: \<open>for t in range(T): if paths[t][i] == gi:
  reach[i] = t; break\<close>, started at timestep \<open>t\<close> on the remaining rows. A row
  shorter than \<open>i + 1\<close> that is read before the goal is found raises IndexError.
\<close>

fun scan_reach :: "XY list list \<Rightarrow> nat \<Rightarrow> XY \<Rightarrow> nat \<Rightarrow> error + nat" where
  "scan_reach [] i gi t = Inr INF_VAL"
| "scan_reach (row # rows) i gi t =
     (case nth_err row i of
        Inl e \<Rightarrow> Inl e
      | Inr p \<Rightarrow> if p = gi then Inr t else scan_reach rows i gi (Suc t))"

text \<open>The outer loop \<open>for i in range(N)\<close>, with \<open>gi = goals[i]\<close> read first.\<close>

fun reach_loop :: "XY list list \<Rightarrow> XY list \<Rightarrow> nat list \<Rightarrow> error + nat list" where
  "reach_loop paths goals [] = Inr []"
| "reach_loop paths goals (i # is) =
     (case nth_err goals i of
        Inl e \<Rightarrow> Inl e
      | Inr gi \<Rightarrow>
          (case scan_reach paths i gi 0 of
             Inl e \<Rightarrow> Inl e
           | Inr r \<Rightarrow>
               (case reach_loop paths goals is of
                  Inl e \<Rightarrow> Inl e
                | Inr rs \<Rightarrow> Inr (r # rs))))"

text \<open>\<open>N = len(paths[0]) if T > 0 else 0\<close>.\<close>

definition num_agents_of :: "XY list list \<Rightarrow> nat" where
  "num_agents_of paths = (case paths of [] \<Rightarrow> 0 | row # _ \<Rightarrow> length row)"

definition first_reach_times :: "XY list list \<Rightarrow> XY list \<Rightarrow> error + nat list" where
  "first_reach_times paths goals = reach_loop paths goals [0..<num_agents_of paths]"

record 'r run_metrics =
  num_agents :: nat
  makespan :: int
  solved :: nat
  reached_agents :: nat
  total_wait :: int
  total_collision :: int
  runtime_s :: 'r
  solver_rc :: int

definition summarize_run_metrics ::
  "XY list list \<Rightarrow> XY list \<Rightarrow> int ndarray \<Rightarrow> int ndarray \<Rightarrow> 'r \<Rightarrow> int \<Rightarrow> error + 'r run_metrics" where
  "summarize_run_metrics paths goals wait_map collision_map rt rc =
     (let T = length paths; N = num_agents_of paths in
      case first_reach_times paths goals of
        Inl e \<Rightarrow> Inl e
      | Inr reach_t \<Rightarrow>
          let reached = length (filter (\<lambda>t. t < INF_VAL) reach_t);
              slv = (if reached = N \<and> rc = 0 then 1 else 0)
          in Inr \<lparr> num_agents = N, makespan = int T - 1, solved = slv,
                   reached_agents = reached, total_wait = sum2 wait_map,
                   total_collision = sum2 collision_map, runtime_s = rt, solver_rc = rc \<rparr>)"

text \<open>
  For the statement of what \<open>solved\<close> means in the code: agent \<open>i\<close> is at its goal at
  some timestep below the sentinel.
\<close>

definition reaches :: "XY list list \<Rightarrow> XY list \<Rightarrow> nat \<Rightarrow> bool" where
  "reaches paths goals i \<longleftrightarrow>
     (\<exists>t<length paths. t < INF_VAL \<and> i < length (paths ! t) \<and> paths ! t ! i = goals ! i)"

text \<open>
  The sibling \<open>compute_metrics\<close> of \<open>04_summarize_phase2.py\<close> computes the same two
  metrics from the last row (its docstring: "reached_agents (at final step)"):
  \<open>goals = goals[:num_agents]; last = paths[-1]\<close>, then \<open>reached\<close> counts the agents
  with \<open>last[i] == goals[i]\<close> and \<open>solved = 1 if reached == num_agents else 0\<close>. It
  returns None for an empty trajectory. Only these two metrics are modelled; the result
  is the pair \<open>(reached, solved)\<close>.
\<close>

fun count_final :: "XY list \<Rightarrow> XY list \<Rightarrow> nat list \<Rightarrow> error + nat" where
  "count_final lst gs [] = Inr 0"
| "count_final lst gs (i # is) =
     (case nth_err lst i of
        Inl e \<Rightarrow> Inl e
      | Inr p \<Rightarrow>
          (case nth_err gs i of
             Inl e \<Rightarrow> Inl e
           | Inr gi \<Rightarrow>
               (case count_final lst gs is of
                  Inl e \<Rightarrow> Inl e
                | Inr k \<Rightarrow> Inr (if p = gi then k + 1 else k))))"

definition compute_metrics :: "XY list list \<Rightarrow> XY list \<Rightarrow> (error + nat \<times> nat) option" where
  "compute_metrics paths goals =
     (if length paths = 0 then None
      else (let n = num_agents_of paths; gs = take n goals in
            Some (case count_final (last paths) gs [0..<n] of
                    Inl e \<Rightarrow> Inl e
                  | Inr reached \<Rightarrow> Inr (reached, if reached = n then 1 else 0))))"

section \<open>Trajectory parser (parse_paths.py)\<close>

text \<open>
  The file's text is taken as the list of its lines, as \<open>read_text(...).splitlines()\<close>
  returns them (no line holds a line break). Characters are ASCII: \<open>\s\<close> is the ASCII
  white space Python's \<open>re\<close> accepts (codes 9 to 13, 28 to 31 and 32), \<open>\d\<close> a decimal
  digit.
\<close>

definition is_space :: "char \<Rightarrow> bool" where
  "is_space c = (let n = (of_char c :: nat) in (9 \<le> n \<and> n \<le> 13) \<or> (28 \<le> n \<and> n \<le> 32))"

definition is_digit :: "char \<Rightarrow> bool" where
  "is_digit c = (let n = (of_char c :: nat) in 48 \<le> n \<and> n \<le> 57)"

text \<open>\<open>int(s)\<close> on a string of decimal digits.\<close>

definition nat_of_digits :: "string \<Rightarrow> nat" where
  "nat_of_digits ds = foldl (\<lambda>a c. 10 * a + (of_char c - 48)) 0 ds"

text \<open>
  \<open>_TLINE_RE = ^\s*(\d+)\s*:\s*(.*)\s*$\<close>, matched at the start of the line: the result
  is the timestep \<open>int(group(1))\<close> and \<open>group(2)\<close>, the rest of the line after the
  colon and the white space that follows it.
\<close>

definition match_tline :: "string \<Rightarrow> (nat \<times> string) option" where
  "match_tline line =
     (let s1 = dropWhile is_space line;
          ds = takeWhile is_digit s1;
          s2 = dropWhile is_space (dropWhile is_digit s1)
      in if ds = [] then None
         else (case s2 of
                 c # s3 \<Rightarrow> if c = CHR '':'' then Some (nat_of_digits ds, dropWhile is_space s3)
                           else None
               | [] \<Rightarrow> None))"

text \<open>\<open>-?\d+\<close> at the head of a string, with the text that follows the match.\<close>

definition match_int :: "string \<Rightarrow> (int \<times> string) option" where
  "match_int s =
     (let neg = (case s of c # _ \<Rightarrow> c = CHR ''-'' | [] \<Rightarrow> False);
          s1 = (if neg then tl s else s);
          ds = takeWhile is_digit s1
      in if ds = [] then None
         else Some (if neg then - int (nat_of_digits ds) else int (nat_of_digits ds),
                    dropWhile is_digit s1))"

text \<open>
  \<open>_XY_RE = \(\s*(-?\d+)\s*,\s*(-?\d+)\s*\)\<close> at the head of a string. The classes
  that follow one another are disjoint, so the greedy match is the only one.
\<close>

definition expect_char :: "char \<Rightarrow> string \<Rightarrow> string option" where
  "expect_char c s = (case s of d # r \<Rightarrow> if d = c then Some r else None | [] \<Rightarrow> None)"

definition match_xy :: "string \<Rightarrow> (XY \<times> string) option" where
  "match_xy s =
     (case expect_char CHR ''('' s of
        None \<Rightarrow> None
      | Some s0 \<Rightarrow>
          (case match_int (dropWhile is_space s0) of
             None \<Rightarrow> None
           | Some (a, s1) \<Rightarrow>
               (case expect_char CHR '','' (dropWhile is_space s1) of
                  None \<Rightarrow> None
                | Some s2 \<Rightarrow>
                    (case match_int (dropWhile is_space s2) of
                       None \<Rightarrow> None
                     | Some (b, s3) \<Rightarrow>
                         (case expect_char CHR '')'' (dropWhile is_space s3) of
                            None \<Rightarrow> None
                          | Some s4 \<Rightarrow> Some ((a, b), s4))))))"

lemma expect_char_length: "expect_char c s = Some r \<Longrightarrow> length r < length s"
  by (auto simp: expect_char_def split: list.splits if_splits)

lemma match_int_length: "match_int s = Some (a, r) \<Longrightarrow> length r \<le> length s"
proof -
  have d: "length (dropWhile is_digit u) \<le> length u" for u
    by (simp add: length_dropWhile_le)
  assume "match_int s = Some (a, r)"
  then have "r = dropWhile is_digit s \<or> r = dropWhile is_digit (tl s)"
    by (auto simp: match_int_def Let_def split: if_splits)
  then show ?thesis
    using d[of s] d[of "tl s"] by (cases s) auto
qed

lemma match_xy_length: "match_xy s = Some (p, r) \<Longrightarrow> length r < length s"
proof -
  have d: "length (dropWhile is_space u) \<le> length u" for u
    by (simp add: length_dropWhile_le)
  assume "match_xy s = Some (p, r)"
  then obtain s0 a s1 s2 b s3 where
    "expect_char CHR ''('' s = Some s0"
    "match_int (dropWhile is_space s0) = Some (a, s1)"
    "expect_char CHR '','' (dropWhile is_space s1) = Some s2"
    "match_int (dropWhile is_space s2) = Some (b, s3)"
    "expect_char CHR '')'' (dropWhile is_space s3) = Some r"
    by (auto simp: match_xy_def split: option.splits)
  then show ?thesis
    using d[of s0] d[of s1] d[of s2] d[of s3]
    by (fastforce dest!: expect_char_length match_int_length)
qed

text \<open>\<open>_XY_RE.findall(rest)\<close>: the matches from left to right, without overlap.\<close>

function findall_xy :: "string \<Rightarrow> XY list" where
  "findall_xy [] = []"
| "findall_xy (c # cs) =
     (case match_xy (c # cs) of
        Some (p, r) \<Rightarrow> p # findall_xy r
      | None \<Rightarrow> findall_xy cs)"
  by pat_completeness auto
termination
  by (relation "measure length") (auto dest: match_xy_length)

datatype parse_error =
    AgentCountMismatch nat nat int
  | NoSolutionLines
  | NonIncreasing nat nat
  | InconsistentAgentCount nat nat

text \<open>
  The loop over the lines, with the lists \<open>timesteps\<close> and \<open>pos_by_t\<close> as state.
  \<open>AgentCountMismatch t got expected\<close> is the error whose message begins
  "Agent count mismatch at t=".
\<close>

fun read_lines ::
  "string list \<Rightarrow> int option \<Rightarrow> nat list \<times> XY list list \<Rightarrow> parse_error + nat list \<times> XY list list" where
  "read_lines [] expected acc = Inr acc"
| "read_lines (line # lns) expected (ts, ps) =
     (case match_tline line of
        None \<Rightarrow> read_lines lns expected (ts, ps)
      | Some (t, rest) \<Rightarrow>
          (let xy = findall_xy rest in
           if xy = [] then read_lines lns expected (ts, ps)
           else (case expected of
                   None \<Rightarrow> read_lines lns expected (ts @ [t], ps @ [xy])
                 | Some e \<Rightarrow>
                     if int (length xy) \<noteq> e then Inl (AgentCountMismatch t (length xy) e)
                     else read_lines lns expected (ts @ [t], ps @ [xy]))))"

text \<open>\<open>for i in range(1, len(timesteps)): if timesteps[i] <= timesteps[i - 1]: raise\<close>.\<close>

fun check_increasing :: "nat list \<Rightarrow> parse_error + unit" where
  "check_increasing (a # b # ts) =
     (if b \<le> a then Inl (NonIncreasing a b) else check_increasing (b # ts))"
| "check_increasing _ = Inr ()"

text \<open>The transposition into per-agent paths; \<open>paths\<close> holds \<open>n\<close> lists throughout.\<close>

fun build_paths :: "nat \<Rightarrow> XY list list \<Rightarrow> XY list list \<Rightarrow> parse_error + XY list list" where
  "build_paths n [] paths = Inr paths"
| "build_paths n (xy # rest) paths =
     (if length xy \<noteq> n then Inl (InconsistentAgentCount n (length xy))
      else build_paths n rest (map (\<lambda>a. paths ! a @ [xy ! a]) [0..<n]))"

text \<open>The returned dictionary; each field carries the prefix \<open>parsed_\<close> before its key.\<close>

record parsed =
  parsed_timesteps :: "nat list"
  parsed_positions_by_t :: "XY list list"
  parsed_paths :: "XY list list"
  parsed_num_agents :: int
  parsed_makespan :: nat

definition parse_output_txt :: "string list \<Rightarrow> int option \<Rightarrow> parse_error + parsed" where
  "parse_output_txt lines expected =
     (case read_lines lines expected ([], []) of
        Inl e \<Rightarrow> Inl e
      | Inr (ts, ps) \<Rightarrow>
          if ts = [] then Inl NoSolutionLines
          else (case check_increasing ts of
                  Inl e \<Rightarrow> Inl e
                | Inr _ \<Rightarrow>
                    (let n = (case expected of None \<Rightarrow> int (length (hd ps)) | Some e \<Rightarrow> e) in
                     case build_paths (nat n) ps (replicate (nat n) []) of
                       Inl e \<Rightarrow> Inl e
                     | Inr pa \<Rightarrow>
                         Inr \<lparr> parsed_timesteps = ts, parsed_positions_by_t = ps, parsed_paths = pa,
                               parsed_num_agents = n, parsed_makespan = last ts \<rparr>)))"

text \<open>
  The accepted lines of a text: those that match the line pattern and hold at least one
  coordinate pair, each with its timestep and its pairs.
\<close>

definition accepted :: "string list \<Rightarrow> (nat \<times> XY list) list" where
  "accepted lines =
     List.map_filter
       (\<lambda>line. case match_tline line of
                None \<Rightarrow> None
              | Some (t, rest) \<Rightarrow> if findall_xy rest = [] then None else Some (t, findall_xy rest))
       lines"

definition strictly_increasing :: "nat list \<Rightarrow> bool" where
  "strictly_increasing ts = sorted_wrt (<) ts"

definition count_differs :: "int \<Rightarrow> nat \<times> XY list \<Rightarrow> bool" where
  "count_differs e a = (int (length (snd a)) \<noteq> e)"

section \<open>Aggregation over runs (03_aggregate_p_raw.py)\<close>

text \<open>
  The in-place sum \<open>acc += b\<close> of numpy on two-dimensional arrays. The accumulator has shape \<open>H\<close> by \<open>W\<close>; \<open>b\<close> is broadcast to it (an axis of
  length 1 is repeated) and numpy raises ValueError when it does not fit. An array with
  no row carries no width here and fits any. The sums are \<open>int64\<close>: addition wraps.
\<close>

definition bcast_row :: "nat \<Rightarrow> 'a list \<Rightarrow> 'a list option" where
  "bcast_row W r =
     (if length r = W then Some r
      else if length r = 1 then Some (replicate W (hd r))
      else None)"

definition bcast :: "nat \<Rightarrow> nat \<Rightarrow> 'a ndarray \<Rightarrow> 'a ndarray option" where
  "bcast H W b =
     (case those (map (bcast_row W) b) of
        None \<Rightarrow> None
      | Some rows \<Rightarrow>
          if length rows = H then Some rows
          else if length rows = 1 then Some (replicate H (hd rows))
          else None)"

definition add2 :: "('a::plus) ndarray \<Rightarrow> 'a ndarray \<Rightarrow> 'a ndarray" where
  "add2 a b = map2 (map2 (+)) a b"

definition iadd :: "nat \<Rightarrow> nat \<Rightarrow> ('a::plus) ndarray \<Rightarrow> 'a ndarray \<Rightarrow> error + 'a ndarray" where
  "iadd H W acc b =
     (case bcast H W b of
        None \<Rightarrow> Inl ValueError
      | Some b' \<Rightarrow> Inr (add2 acc b'))"

text \<open>
  What \<open>load_npz\<close> returns for one file, and an instance file as the loop sees it: its
  name, the value \<open>int(m["metrics"]["solved"])\<close> of its \<open>.meta.json\<close> sidecar when that
  file exists, and the loaded arrays.
\<close>

record npz_run =
  npz_wait :: "64 word ndarray"
  npz_pressure :: "64 word ndarray"
  npz_occ :: "64 word ndarray"
  npz_obstacles :: "8 word ndarray"
  npz_H :: int
  npz_W :: int
  npz_makespan :: int

record instance_file =
  file_name :: string
  sidecar_solved :: "int option"
  npz :: npz_run

text \<open>The variables the loop updates.\<close>

record agg_state =
  wait_sum :: "64 word ndarray"
  pressure_sum :: "64 word ndarray"
  occ_sum :: "64 word ndarray"
  makespans :: "int list"
  used :: "string list"
  solved_cnt :: nat

text \<open>
  One iteration of \<open>for f in npz_files\<close>: the sidecar test, the solved count, the
  \<open>only_solved\<close> filter (inside the sidecar test), the comparison of the declared \<open>H\<close>,
  \<open>W\<close>, and the three sums.
\<close>

definition agg_step :: "bool \<Rightarrow> int \<Rightarrow> int \<Rightarrow> agg_state \<Rightarrow> instance_file \<Rightarrow> error + agg_state" where
  "agg_step only_solved H W s f =
     (let s1 = (case sidecar_solved f of
                  None \<Rightarrow> s
                | Some sv \<Rightarrow> if sv = 1 then s\<lparr>solved_cnt := solved_cnt s + 1\<rparr> else s);
          skip = (case sidecar_solved f of
                    None \<Rightarrow> False
                  | Some sv \<Rightarrow> only_solved \<and> sv \<noteq> 1)
      in if skip then Inr s1
         else (let d = npz f in
               if npz_H d \<noteq> H \<or> npz_W d \<noteq> W then Inl ValueError
               else (case iadd (nat H) (nat W) (wait_sum s1) (npz_wait d) of
                       Inl e \<Rightarrow> Inl e
                     | Inr ws \<Rightarrow>
                         (case iadd (nat H) (nat W) (pressure_sum s1) (npz_pressure d) of
                            Inl e \<Rightarrow> Inl e
                          | Inr prs \<Rightarrow>
                              (case iadd (nat H) (nat W) (occ_sum s1) (npz_occ d) of
                                 Inl e \<Rightarrow> Inl e
                               | Inr os \<Rightarrow>
                                   Inr (s1\<lparr> wait_sum := ws, pressure_sum := prs, occ_sum := os,
                                            makespans := makespans s1 @ [npz_makespan d],
                                            used := used s1 @ [file_name f] \<rparr>))))))"

fun agg_loop :: "bool \<Rightarrow> int \<Rightarrow> int \<Rightarrow> agg_state \<Rightarrow> instance_file list \<Rightarrow> error + agg_state" where
  "agg_loop only_solved H W s [] = Inr s"
| "agg_loop only_solved H W s (f # fs) =
     (case agg_step only_solved H W s f of
        Inl e \<Rightarrow> Inl e
      | Inr s' \<Rightarrow> agg_loop only_solved H W s' fs)"

text \<open>
  The part of \<open>main\<close> from the list of files to the integer sums and the counts in
  \<open>stats\<close>. \<open>solved_rate\<close> is the exact quotient that \<open>float(solved_cnt) /
  float(num_instances_total)\<close> rounds. The weighted field \<open>p_raw\<close> is floating point and
  is left out.
\<close>

record aggregate =
  agg_sums :: agg_state
  agg_obstacles :: "8 word ndarray"
  num_instances_total :: nat
  num_instances_used :: nat
  solved_rate :: rat

definition init_state :: "int \<Rightarrow> int \<Rightarrow> agg_state" where
  "init_state H W =
     \<lparr> wait_sum = zeros (nat H) (nat W), pressure_sum = zeros (nat H) (nat W),
       occ_sum = zeros (nat H) (nat W), makespans = [], used = [], solved_cnt = 0 \<rparr>"

definition aggregate_main :: "bool \<Rightarrow> instance_file list \<Rightarrow> error + aggregate" where
  "aggregate_main only_solved npz_files =
     (case npz_files of
        [] \<Rightarrow> Inl FileNotFoundError
      | first # _ \<Rightarrow>
          (let H = npz_H (npz first); W = npz_W (npz first) in
           if H < 0 \<or> W < 0 then Inl ValueError
           else (case agg_loop only_solved H W (init_state H W) npz_files of
                   Inl e \<Rightarrow> Inl e
                 | Inr s \<Rightarrow>
                     Inr \<lparr> agg_sums = s, agg_obstacles = npz_obstacles (npz first),
                           num_instances_total = length npz_files,
                           num_instances_used = length (used s),
                           solved_rate = of_nat (solved_cnt s) / of_nat (length npz_files) \<rparr>)))"

text \<open>
  For the statements: a run passes the loop's filter when it has no sidecar, when
  \<open>only_solved\<close> is off, or when its sidecar says solved; a file is well shaped when its declared and actual shapes are \<open>H\<close> by \<open>W\<close>.
\<close>

definition passes :: "bool \<Rightarrow> instance_file \<Rightarrow> bool" where
  "passes only_solved f =
     (case sidecar_solved f of None \<Rightarrow> True | Some sv \<Rightarrow> \<not> only_solved \<or> sv = 1)"

definition well_shaped :: "int \<Rightarrow> int \<Rightarrow> instance_file \<Rightarrow> bool" where
  "well_shaped H W f \<longleftrightarrow>
     npz_H (npz f) = H \<and> npz_W (npz f) = W \<and> rect (npz_wait (npz f)) (nat H) (nat W)
     \<and> rect (npz_pressure (npz f)) (nat H) (nat W) \<and> rect (npz_occ (npz f)) (nat H) (nat W)"

text \<open>The sum of a list of arrays, cell by cell, from the zero array.\<close>

definition sum_arrays :: "nat \<Rightarrow> nat \<Rightarrow> 64 word ndarray list \<Rightarrow> 64 word ndarray" where
  "sum_arrays H W as = foldl add2 (zeros H W) as"

text \<open>A small instance file for examples: arrays of shape 1 by 2 built from one value.\<close>

definition demo_file :: "string \<Rightarrow> int option \<Rightarrow> 64 word \<Rightarrow> instance_file" where
  "demo_file name sc v =
     \<lparr> file_name = name, sidecar_solved = sc,
       npz = \<lparr> npz_wait = [[v, 0]], npz_pressure = [[0, v]], npz_occ = [[v, v]],
               npz_obstacles = [[0, 0]], npz_H = 1, npz_W = 2, npz_makespan = 3 \<rparr> \<rparr>"

section \<open>Binary export (04_export_heatmap_bin.py)\<close>

unbundle bit_operations_syntax

text \<open>
  A \<open>float32\<close> value is its IEEE 754 bit pattern. \<open>tobytes(order="C")\<close> writes the
  elements row by row, each as four bytes, least significant first (the host is little
  endian, as the exported format says); \<open>np.fromfile(..., dtype="<f4")\<close> reads whole
  groups of four bytes back, and \<open>reshape((H, W))\<close> cuts the flat result into rows.
\<close>

type_synonym f32 = "32 word"
type_synonym byte = "8 word"

definition le_bytes :: "f32 \<Rightarrow> byte list" where
  "le_bytes w = [ucast w, ucast (drop_bit 8 w), ucast (drop_bit 16 w), ucast (drop_bit 24 w)]"

definition from_le :: "byte \<Rightarrow> byte \<Rightarrow> byte \<Rightarrow> byte \<Rightarrow> f32" where
  "from_le b0 b1 b2 b3 =
     ucast b0 OR push_bit 8 (ucast b1) OR push_bit 16 (ucast b2) OR push_bit 24 (ucast b3)"

definition tobytes :: "f32 ndarray \<Rightarrow> byte list" where
  "tobytes p = concat (map le_bytes (concat p))"

fun fromfile_f4 :: "byte list \<Rightarrow> f32 list" where
  "fromfile_f4 (b0 # b1 # b2 # b3 # bs) = from_le b0 b1 b2 b3 # fromfile_f4 bs"
| "fromfile_f4 _ = []"

fun reshape :: "nat \<Rightarrow> nat \<Rightarrow> 'a list \<Rightarrow> 'a ndarray" where
  "reshape 0 W xs = []"
| "reshape (Suc h) W xs = take W xs # reshape h W (drop W xs)"

text \<open>
  \<open>np.allclose(p, p2, rtol=0, atol=0)\<close>: with both tolerances zero, two elements are
  close exactly when they are equal as IEEE numbers, so a NaN is close to nothing and
  the two zeros are close to each other.
\<close>

definition is_nan :: "f32 \<Rightarrow> bool" where
  "is_nan w \<longleftrightarrow> (drop_bit 23 w AND 255 = 255) \<and> (w AND 8388607 \<noteq> 0)"

definition is_finite :: "f32 \<Rightarrow> bool" where
  "is_finite w \<longleftrightarrow> drop_bit 23 w AND 255 \<noteq> 255"

definition is_zero :: "f32 \<Rightarrow> bool" where
  "is_zero w \<longleftrightarrow> w AND 2147483647 = 0"

definition isclose0 :: "f32 \<Rightarrow> f32 \<Rightarrow> bool" where
  "isclose0 a b \<longleftrightarrow> \<not> is_nan a \<and> \<not> is_nan b \<and> (a = b \<or> (is_zero a \<and> is_zero b))"

definition allclose0 :: "f32 ndarray \<Rightarrow> f32 ndarray \<Rightarrow> bool" where
  "allclose0 p q = list_all2 (list_all2 isclose0) p q"

text \<open>
  The files of the destination directory: a map from path to content. What \<open>np.load\<close>
  finds at \<open>npy_path\<close>, after \<open>ensure_c_f32\<close>: no file, an array that is not
  two-dimensional, or a \<open>float32\<close> matrix.
\<close>

type_synonym files = "string \<rightharpoonup> byte list"

datatype npy_file = Missing | NotMatrix | Matrix "f32 ndarray"

definition bin_path :: "string \<Rightarrow> string" where
  "bin_path out_dir = out_dir @ ''/heatmap.f32.bin''"

definition meta_path :: "string \<Rightarrow> string" where
  "meta_path out_dir = out_dir @ ''/heatmap.meta.json''"

text \<open>
  \<open>export_one\<close> on the files \<open>fs\<close>. \<open>map_dims\<close> is what \<open>parse_movingai_map_dims\<close>
  returned (None without map path or header), \<open>meta_json\<close> the text
  \<open>json.dumps(meta, ...)\<close> encoded; its value statistics are floating point and are not
  computed here, but \<open>np.min\<close> of an array without elements raises ValueError. The
  result is the files left behind and the outcome.
\<close>

definition export_one ::
  "files \<Rightarrow> npy_file \<Rightarrow> (int \<times> int) option \<Rightarrow> string \<Rightarrow> byte list \<Rightarrow> files \<times> (error + unit)" where
  "export_one fs npy map_dims out_dir meta_json =
     (case npy of
        Missing \<Rightarrow> (fs, Inl FileNotFoundError)
      | NotMatrix \<Rightarrow> (fs, Inl ValueError)
      | Matrix p \<Rightarrow>
          (let H = shape_H p; W = shape_W p in
           if (case map_dims of
                 None \<Rightarrow> False
               | Some (mh, mw) \<Rightarrow> mh \<noteq> int H \<or> mw \<noteq> int W)
           then (fs, Inl ValueError)
           else
             (let fs1 = fs(bin_path out_dir \<mapsto> tobytes p) in
              if H * W = 0 then (fs1, Inl ValueError)
              else
                (let fs2 = fs1(meta_path out_dir \<mapsto> meta_json) in
                 case fs2 (bin_path out_dir) of
                   None \<Rightarrow> (fs2, Inl FileNotFoundError)
                 | Some content \<Rightarrow>
                     (let raw = fromfile_f4 content in
                      if length raw \<noteq> H * W then (fs2, Inl RuntimeError)
                      else if \<not> allclose0 p (reshape H W raw) then (fs2, Inl RuntimeError)
                      else (fs2, Inr ()))))))"

section \<open>Distance field by breadth-first search (stats_wait_collision.py)\<close>

text \<open>
  \<open>obstacles[y, x]\<close> is read for its truth value only, so the mask is an array of
  booleans. Distances are the \<open>int32\<close> entries of the array \<open>dist\<close> (here \<open>dmap\<close>): they start at the sentinel and
  only ever receive \<open>int(dist[y, x]) + 1\<close> where that is below the entry it replaces,
  so they stay between 0 and the sentinel and are modelled as naturals. The queue holds
  cells \<open>(x, y)\<close> with coordinates that are not negative: the goal is put in after the
  bounds test, and a neighbour \<open>x - 1\<close>, \<open>y - 1\<close> only under \<open>x > 0\<close>, \<open>y > 0\<close>.
\<close>

type_synonym cell = "nat \<times> nat"

type_synonym bfs_state = "nat ndarray \<times> cell list"

text \<open>
  One of the four tests of the loop body, for the neighbour \<open>(nx, ny)\<close>:
  \<open>if ... not obstacles[ny, nx] and dist[ny, nx] > d: dist[ny, nx] = d; q.append((nx, ny))\<close>.
\<close>

definition relax :: "bool ndarray \<Rightarrow> bfs_state \<Rightarrow> nat \<Rightarrow> nat \<Rightarrow> nat \<Rightarrow> error + bfs_state" where
  "relax obs s nx ny d =
     (case get2 obs ny nx of
        Inl e \<Rightarrow> Inl e
      | Inr blocked \<Rightarrow>
          if blocked then Inr s
          else (case get2 (fst s) ny nx of
                  Inl e \<Rightarrow> Inl e
                | Inr v \<Rightarrow>
                    if v > d then Inr (set2 (fst s) ny nx d, snd s @ [(nx, ny)])
                    else Inr s))"

text \<open>
  The loop body after \<open>x, y = q.popleft()\<close>, with \<open>q\<close> the rest of the queue: the
  neighbours are tried in the order left, right, up, down.
\<close>

definition bfs_step :: "bool ndarray \<Rightarrow> nat ndarray \<Rightarrow> nat \<Rightarrow> nat \<Rightarrow> cell list \<Rightarrow> error + bfs_state" where
  "bfs_step obs dmap x y q =
     (case get2 dmap y x of
        Inl e \<Rightarrow> Inl e
      | Inr dv \<Rightarrow>
          (let d = dv + 1; H = shape_H obs; W = shape_W obs in
           case (if x > 0 then relax obs (dmap, q) (x - 1) y d else Inr (dmap, q)) of
             Inl e \<Rightarrow> Inl e
           | Inr s1 \<Rightarrow>
               (case (if x + 1 < W then relax obs s1 (x + 1) y d else Inr s1) of
                  Inl e \<Rightarrow> Inl e
                | Inr s2 \<Rightarrow>
                    (case (if y > 0 then relax obs s2 x (y - 1) d else Inr s2) of
                       Inl e \<Rightarrow> Inl e
                     | Inr s3 \<Rightarrow>
                         (if y + 1 < H then relax obs s3 x (y + 1) d else Inr s3)))))"

text \<open>The loop ends: every write lowers an entry of \<open>dist\<close>, every other round shortens the queue.\<close>

definition dsum :: "nat ndarray \<Rightarrow> nat" where
  "dsum a = sum_list (map sum_list a)"

lemma dsum_set2:
  assumes "get2 a y x = Inr v" "d < v"
  shows "dsum (set2 a y x d) < dsum a"
proof -
  from assms(1) have y: "y < length a" and x: "x < length (a ! y)" and v: "a ! y ! x = v"
    by (auto simp: get2_def split: if_splits)
  have "a ! y ! x \<in> set (a ! y)"
    using x by simp
  then have "a ! y ! x \<le> sum_list (a ! y)"
    by (simp add: member_le_sum_list)
  then have "v \<le> sum_list (a ! y)"
    using v by simp
  then have row: "sum_list ((a ! y)[x := d]) < sum_list (a ! y)"
    using x v assms(2) by (simp add: sum_list_update)
  have "sum_list (a ! y) \<in> set (map sum_list a)"
    using y by simp
  then have "sum_list (a ! y) \<le> sum_list (map sum_list a)"
    by (simp add: member_le_sum_list del: set_map)
  then show ?thesis
    using y row by (simp add: dsum_def set2_def map_update sum_list_update)
qed

lemma relax_decreases:
  "relax obs s nx ny d = Inr s' \<Longrightarrow> s' = s \<or> dsum (fst s') < dsum (fst s)"
  by (auto simp: relax_def dsum_set2 split: sum.splits if_splits)

lemma guarded_relax_decreases:
  "(if c then relax obs s nx ny d else Inr s) = Inr s' \<Longrightarrow> s' = s \<or> dsum (fst s') < dsum (fst s)"
  by (cases c) (auto dest: relax_decreases)

lemma bfs_step_decreases:
  assumes "bfs_step obs dmap x y q = Inr s'"
  shows "s' = (dmap, q) \<or> dsum (fst s') < dsum dmap"
proof -
  from assms obtain dv s1 s2 s3 where
    "(if x > 0 then relax obs (dmap, q) (x - 1) y (dv + 1) else Inr (dmap, q)) = Inr s1"
    "(if x + 1 < shape_W obs then relax obs s1 (x + 1) y (dv + 1) else Inr s1) = Inr s2"
    "(if y > 0 then relax obs s2 x (y - 1) (dv + 1) else Inr s2) = Inr s3"
    "(if y + 1 < shape_H obs then relax obs s3 x (y + 1) (dv + 1) else Inr s3) = Inr s'"
    unfolding bfs_step_def Let_def by (simp split: sum.splits)
  then have "s1 = (dmap, q) \<or> dsum (fst s1) < dsum (fst (dmap, q))"
    "s2 = s1 \<or> dsum (fst s2) < dsum (fst s1)"
    "s3 = s2 \<or> dsum (fst s3) < dsum (fst s2)"
    "s' = s3 \<or> dsum (fst s') < dsum (fst s3)"
    by (blast dest: guarded_relax_decreases)+
  then show ?thesis by auto
qed

function bfs_loop :: "bool ndarray \<Rightarrow> nat ndarray \<Rightarrow> cell list \<Rightarrow> error + nat ndarray" where
  "bfs_loop obs dmap [] = Inr dmap"
| "bfs_loop obs dmap ((x, y) # q) =
     (case bfs_step obs dmap x y q of
        Inl e \<Rightarrow> Inl e
      | Inr (dmap', q') \<Rightarrow> bfs_loop obs dmap' q')"
  by pat_completeness auto
termination
proof (relation "measures [\<lambda>(obs, dmap, q). dsum dmap, \<lambda>(obs, dmap, q). length q]")
  show "wf (measures [\<lambda>(obs, dmap, q). dsum dmap, \<lambda>(obs, dmap, q). length q])"
    by simp
next
  fix obs :: "bool ndarray" and dmap x y q s' dmap' q'
  assume "bfs_step obs dmap x y q = Inr s'" "(dmap', q') = s'"
  then show "((obs, dmap', q'), obs, dmap, (x, y) # q)
      \<in> measures [\<lambda>(obs, dmap, q). dsum dmap, \<lambda>(obs, dmap, q). length q]"
    using bfs_step_decreases[of obs dmap x y q s'] by auto
qed

definition bfs_dist :: "bool ndarray \<Rightarrow> XY \<Rightarrow> error + nat ndarray" where
  "bfs_dist obstacles goal =
     (let H = shape_H obstacles; W = shape_W obstacles;
          gx = fst goal; gy = snd goal;
          dmap = full H W INF_VAL
      in if \<not> (0 \<le> gx \<and> gx < int W \<and> 0 \<le> gy \<and> gy < int H) then Inr dmap
         else (case get2 obstacles (nat gy) (nat gx) of
                 Inl e \<Rightarrow> Inl e
               | Inr blocked \<Rightarrow>
                   if blocked then Inr dmap
                   else bfs_loop obstacles (set2 dmap (nat gy) (nat gx) 0) [(nat gx, nat gy)]))"

text \<open>
  For the statements about the distance field: the entry of an array at a cell
  \<open>(x, y)\<close>, cells inside an \<open>H\<close> by \<open>W\<close> grid, free cells (inside and not an obstacle),
  4-neighbours, and the cells connected to the goal by a path of free cells.
\<close>

definition cell_at :: "'a ndarray \<Rightarrow> cell \<Rightarrow> 'a" where
  "cell_at a c = a ! snd c ! fst c"

definition inb :: "nat \<Rightarrow> nat \<Rightarrow> cell \<Rightarrow> bool" where
  "inb H W c \<longleftrightarrow> fst c < W \<and> snd c < H"

definition free :: "bool ndarray \<Rightarrow> nat \<Rightarrow> nat \<Rightarrow> cell \<Rightarrow> bool" where
  "free obs H W c \<longleftrightarrow> inb H W c \<and> \<not> cell_at obs c"

definition adj :: "cell \<Rightarrow> cell \<Rightarrow> bool" where
  "adj c n \<longleftrightarrow>
     (snd n = snd c \<and> (fst n = fst c + 1 \<or> fst c = fst n + 1))
   \<or> (fst n = fst c \<and> (snd n = snd c + 1 \<or> snd c = snd n + 1))"

inductive connected :: "bool ndarray \<Rightarrow> nat \<Rightarrow> nat \<Rightarrow> cell \<Rightarrow> cell \<Rightarrow> bool"
  for obs :: "bool ndarray" and H :: nat and W :: nat and g :: cell where
  start: "free obs H W g \<Longrightarrow> connected obs H W g g"
| step: "connected obs H W g c \<Longrightarrow> adj c n \<Longrightarrow> free obs H W n \<Longrightarrow> connected obs H W g n"

text \<open>The goal is usable when it lies inside the grid and not on an obstacle.\<close>

definition goal_ok :: "bool ndarray \<Rightarrow> nat \<Rightarrow> nat \<Rightarrow> XY \<Rightarrow> bool" where
  "goal_ok obs H W goal \<longleftrightarrow>
     0 \<le> fst goal \<and> fst goal < int W \<and> 0 \<le> snd goal \<and> snd goal < int H
     \<and> \<not> cell_at obs (nat (fst goal), nat (snd goal))"

text \<open>
  The invariants of the search, for the proofs. \<open>field_ok\<close> is what holds of the array
  at every moment: its shape, the zero at the goal, the sentinel as upper bound, and that
  a cell below the sentinel is free and, unless it is the goal, has a neighbour one step
  closer. \<open>bfs_inv\<close> adds, between two rounds of the loop, that the queue is sorted by
  distance within a span of one and that every finished cell (below the sentinel and not
  in the queue) is no farther than the queue and has no free neighbour more than one step
  farther. \<open>bfs_mid\<close> is the same inside a round, for the cell \<open>c0\<close> taken from the
  queue, the value \<open>d\<close> it hands out and the set \<open>D\<close> of its neighbours already tried.
\<close>

definition field_ok :: "bool ndarray \<Rightarrow> nat \<Rightarrow> nat \<Rightarrow> cell \<Rightarrow> nat ndarray \<Rightarrow> bool" where
  "field_ok obs H W g dmap \<longleftrightarrow>
     rect dmap H W \<and> free obs H W g \<and> cell_at dmap g = 0
   \<and> (\<forall>c. inb H W c \<longrightarrow> cell_at dmap c \<le> INF_VAL)
   \<and> (\<forall>c. inb H W c \<and> cell_at dmap c < INF_VAL \<longrightarrow>
          free obs H W c
        \<and> (c \<noteq> g \<longrightarrow> (\<exists>n. adj n c \<and> inb H W n \<and> cell_at dmap n + 1 = cell_at dmap c)))"

definition bfs_inv :: "bool ndarray \<Rightarrow> nat \<Rightarrow> nat \<Rightarrow> cell \<Rightarrow> nat ndarray \<Rightarrow> cell list \<Rightarrow> bool" where
  "bfs_inv obs H W g dmap q \<longleftrightarrow>
     field_ok obs H W g dmap
   \<and> (\<forall>c\<in>set q. free obs H W c \<and> cell_at dmap c < INF_VAL)
   \<and> sorted (map (cell_at dmap) q)
   \<and> (q \<noteq> [] \<longrightarrow> cell_at dmap (last q) \<le> cell_at dmap (hd q) + 1)
   \<and> (\<forall>c. inb H W c \<and> cell_at dmap c < INF_VAL \<and> c \<notin> set q \<longrightarrow>
          (\<forall>c'\<in>set q. cell_at dmap c \<le> cell_at dmap c')
        \<and> (\<forall>n. adj c n \<and> free obs H W n \<longrightarrow> cell_at dmap n \<le> cell_at dmap c + 1))"

definition bfs_mid ::
  "bool ndarray \<Rightarrow> nat \<Rightarrow> nat \<Rightarrow> cell \<Rightarrow> cell \<Rightarrow> nat \<Rightarrow> cell set \<Rightarrow> nat ndarray \<Rightarrow> cell list \<Rightarrow> bool" where
  "bfs_mid obs H W g c0 d D dmap q \<longleftrightarrow>
     field_ok obs H W g dmap
   \<and> free obs H W c0 \<and> cell_at dmap c0 + 1 = d \<and> d \<le> INF_VAL
   \<and> (\<forall>c\<in>set q. free obs H W c \<and> cell_at dmap c < INF_VAL
          \<and> cell_at dmap c0 \<le> cell_at dmap c \<and> cell_at dmap c \<le> d)
   \<and> sorted (map (cell_at dmap) q)
   \<and> (\<forall>c. inb H W c \<and> cell_at dmap c < INF_VAL \<and> c \<notin> set q \<and> c \<noteq> c0 \<longrightarrow>
          cell_at dmap c \<le> cell_at dmap c0
        \<and> (\<forall>n. adj c n \<and> free obs H W n \<longrightarrow> cell_at dmap n \<le> cell_at dmap c + 1))
   \<and> (\<forall>n\<in>D. free obs H W n \<longrightarrow> cell_at dmap n \<le> d)"

section \<open>Wait, pressure and occupancy heatmaps (stats_wait_collision.py)\<close>

text \<open>
  A \<open>for\<close> loop over a list whose body may raise: the state is threaded through and the
  first error ends the loop.
\<close>

fun for_each :: "'a list \<Rightarrow> ('a \<Rightarrow> 's \<Rightarrow> error + 's) \<Rightarrow> 's \<Rightarrow> error + 's" where
  "for_each [] body s = Inr s"
| "for_each (x # xs) body s =
     (case body x s of
        Inl e \<Rightarrow> Inl e
      | Inr s' \<Rightarrow> for_each xs body s')"

text \<open>
  \<open>paths[t][i]\<close>; the test \<open>0 <= x < W and 0 <= y < H\<close> on a position; and \<open>a[y, x] += 1\<close>
  on an integer array (the counts are \<open>int32\<close> in numpy; they are far from its range
  for any trajectory that fits in memory and are modelled as unbounded integers).
\<close>

definition pos_at :: "XY list list \<Rightarrow> nat \<Rightarrow> nat \<Rightarrow> error + XY" where
  "pos_at paths t i =
     (case nth_err paths t of
        Inl e \<Rightarrow> Inl e
      | Inr row \<Rightarrow> nth_err row i)"

definition in_grid :: "int \<Rightarrow> int \<Rightarrow> XY \<Rightarrow> bool" where
  "in_grid H W p \<longleftrightarrow> 0 \<le> fst p \<and> fst p < W \<and> 0 \<le> snd p \<and> snd p < H"

definition inc2 :: "int ndarray \<Rightarrow> nat \<Rightarrow> nat \<Rightarrow> error + int ndarray" where
  "inc2 a y x =
     (case get2 a y x of
        Inl e \<Rightarrow> Inl e
      | Inr v \<Rightarrow> Inr (set2 a y x (v + 1)))"

text \<open>
  The cache of distance fields, one per distinct goal: \<open>for g in unique_goals:
  dist_cache[g] = _bfs_dist(obstacles, g)\<close>. The set is walked in the order of first
  occurrence; the resulting dictionary does not depend on the order.
\<close>

fun build_cache :: "bool ndarray \<Rightarrow> XY list \<Rightarrow> (XY \<rightharpoonup> nat ndarray) \<Rightarrow> error + (XY \<rightharpoonup> nat ndarray)" where
  "build_cache obs [] cache = Inr cache"
| "build_cache obs (g # gs) cache =
     (case bfs_dist obs g of
        Inl e \<Rightarrow> Inl e
      | Inr dmap \<Rightarrow> build_cache obs gs (cache(g \<mapsto> dmap)))"

text \<open>The body of the occupancy loop for timestep \<open>t\<close> and agent \<open>i\<close>.\<close>

definition occ_body ::
  "XY list list \<Rightarrow> nat list \<Rightarrow> int \<Rightarrow> int \<Rightarrow> nat \<Rightarrow> nat \<Rightarrow> int ndarray \<Rightarrow> error + int ndarray" where
  "occ_body paths reach_t H W t i occ =
     (case nth_err reach_t i of
        Inl e \<Rightarrow> Inl e
      | Inr r \<Rightarrow>
          if t > r then Inr occ
          else (case pos_at paths t i of
                  Inl e \<Rightarrow> Inl e
                | Inr p \<Rightarrow>
                    if in_grid H W p then inc2 occ (nat (snd p)) (nat (fst p))
                    else Inr occ))"

text \<open>
  The fixed neighbour order \<open>nbs\<close>, and the body of \<open>for dx, dy in nbs\<close>, whose state is
  the pair \<open>(intend, best_d)\<close>.
\<close>

definition nbs :: "XY list" where
  "nbs = [(1, 0), (-1, 0), (0, 1), (0, -1)]"

definition intend_body ::
  "int \<Rightarrow> int \<Rightarrow> bool ndarray \<Rightarrow> nat ndarray \<Rightarrow> XY \<Rightarrow> XY \<Rightarrow> XY \<times> nat \<Rightarrow> error + XY \<times> nat" where
  "intend_body H W obs dmap cur dxy st =
     (let n = (fst cur + fst dxy, snd cur + snd dxy) in
      if in_grid H W n then
        (case get2 obs (nat (snd n)) (nat (fst n)) of
           Inl e \<Rightarrow> Inl e
         | Inr blocked \<Rightarrow>
             if blocked then Inr st
             else (case get2 dmap (nat (snd n)) (nat (fst n)) of
                     Inl e \<Rightarrow> Inl e
                   | Inr d_nb \<Rightarrow> if d_nb < snd st then Inr (n, d_nb) else Inr st))
      else Inr st)"

text \<open>The maps and counters that the second loop updates.\<close>

record wc_state =
  wc_wait_map :: "int ndarray"
  wc_collision_map :: "int ndarray"
  wc_total_wait :: int
  wc_total_blocked :: int

text \<open>
  The first half of the loop body: \<open>if nxt == cur:\<close> count the wait, in the map only
  when the cell is inside the grid.
\<close>

definition wait_part :: "int \<Rightarrow> int \<Rightarrow> XY \<Rightarrow> XY \<Rightarrow> wc_state \<Rightarrow> error + wc_state" where
  "wait_part H W cur nxt s =
     (if nxt = cur then
        (case (if in_grid H W cur then inc2 (wc_wait_map s) (nat (snd cur)) (nat (fst cur))
               else Inr (wc_wait_map s)) of
           Inl e \<Rightarrow> Inl e
         | Inr wm \<Rightarrow> Inr (s\<lparr>wc_wait_map := wm, wc_total_wait := wc_total_wait s + 1\<rparr>))
      else Inr s)"

text \<open>
  The second half, from \<open>dist = dist_cache[goals[i]]\<close> on: the three \<open>continue\<close> tests,
  the search for the intended cell, and the count of the blocked move at that cell.
\<close>

definition pressure_part ::
  "int \<Rightarrow> int \<Rightarrow> bool ndarray \<Rightarrow> nat ndarray \<Rightarrow> XY \<Rightarrow> XY \<Rightarrow> wc_state \<Rightarrow> error + wc_state" where
  "pressure_part H W obs dmap cur nxt s =
     (if \<not> in_grid H W cur then Inr s
      else (case get2 obs (nat (snd cur)) (nat (fst cur)) of
              Inl e \<Rightarrow> Inl e
            | Inr blocked \<Rightarrow>
                if blocked then Inr s
                else (case get2 dmap (nat (snd cur)) (nat (fst cur)) of
                        Inl e \<Rightarrow> Inl e
                      | Inr d_cur \<Rightarrow>
                          if d_cur \<ge> INF_VAL then Inr s
                          else (case for_each nbs (intend_body H W obs dmap cur) (cur, d_cur) of
                                  Inl e \<Rightarrow> Inl e
                                | Inr (intend, best_d) \<Rightarrow>
                                    if intend \<noteq> cur \<and> nxt = cur then
                                      (case inc2 (wc_collision_map s) (nat (snd intend))
                                              (nat (fst intend)) of
                                         Inl e \<Rightarrow> Inl e
                                       | Inr cm \<Rightarrow>
                                           Inr (s\<lparr>wc_collision_map := cm,
                                                   wc_total_blocked := wc_total_blocked s + 1\<rparr>))
                                    else Inr s))))"

text \<open>The whole body of the second loop for timestep \<open>t\<close> and agent \<open>i\<close>.\<close>

definition wc_body ::
  "XY list list \<Rightarrow> XY list \<Rightarrow> nat list \<Rightarrow> int \<Rightarrow> int \<Rightarrow> bool ndarray \<Rightarrow> (XY \<rightharpoonup> nat ndarray)
     \<Rightarrow> nat \<Rightarrow> nat \<Rightarrow> wc_state \<Rightarrow> error + wc_state" where
  "wc_body paths goals reach_t H W obs cache t i s =
     (case nth_err reach_t i of
        Inl e \<Rightarrow> Inl e
      | Inr r \<Rightarrow>
          if t \<ge> r then Inr s
          else (case pos_at paths t i of
                  Inl e \<Rightarrow> Inl e
                | Inr cur \<Rightarrow>
                    (case pos_at paths (t + 1) i of
                       Inl e \<Rightarrow> Inl e
                     | Inr nxt \<Rightarrow>
                         (case wait_part H W cur nxt s of
                            Inl e \<Rightarrow> Inl e
                          | Inr s1 \<Rightarrow>
                              (case nth_err goals i of
                                 Inl e \<Rightarrow> Inl e
                               | Inr gi \<Rightarrow>
                                   (case cache gi of
                                      None \<Rightarrow> Inl KeyError
                                    | Some dmap \<Rightarrow> pressure_part H W obs dmap cur nxt s1))))))"

record details =
  det_T :: nat
  det_N :: nat
  det_reach_t :: "nat list"
  det_total_wait :: int
  det_total_blocked :: int

text \<open>
  \<open>compute_wait_collision_heatmaps\<close>. \<open>H\<close> and \<open>W\<close> are the integers passed in
  (\<open>np.zeros\<close> refuses a negative one); the mask has its own shape. The result is
  \<open>(wait_map, collision_map, occupancy_map, details)\<close>.
\<close>

definition compute_wait_collision_heatmaps ::
  "XY list list \<Rightarrow> XY list \<Rightarrow> int \<Rightarrow> int \<Rightarrow> bool ndarray option
     \<Rightarrow> error + int ndarray \<times> int ndarray \<times> int ndarray \<times> details" where
  "compute_wait_collision_heatmaps paths goals H W obstacles =
     (case obstacles of
        None \<Rightarrow> Inl ValueError
      | Some obs \<Rightarrow>
          (let T = length paths in
           if T = 0 then Inl ValueError
           else (let N = num_agents_of paths in
                 if length goals \<noteq> N then Inl ValueError
                 else (case first_reach_times paths goals of
                         Inl e \<Rightarrow> Inl e
                       | Inr reach_t \<Rightarrow>
                           if H < 0 \<or> W < 0 then Inl ValueError
                           else (case build_cache obs (remdups goals) Map.empty of
                                   Inl e \<Rightarrow> Inl e
                                 | Inr cache \<Rightarrow>
                                     (case for_each [0..<T]
                                             (\<lambda>t. for_each [0..<N] (occ_body paths reach_t H W t))
                                             (zeros (nat H) (nat W)) of
                                        Inl e \<Rightarrow> Inl e
                                      | Inr occ \<Rightarrow>
                                          (case for_each [0..<T - 1]
                                                  (\<lambda>t. for_each [0..<N]
                                                     (wc_body paths goals reach_t H W obs cache t))
                                                  \<lparr> wc_wait_map = zeros (nat H) (nat W),
                                                    wc_collision_map = zeros (nat H) (nat W),
                                                    wc_total_wait = 0, wc_total_blocked = 0 \<rparr> of
                                             Inl e \<Rightarrow> Inl e
                                           | Inr s \<Rightarrow>
                                               Inr (wc_wait_map s, wc_collision_map s, occ,
                                                    \<lparr> det_T = T, det_N = N, det_reach_t = reach_t,
                                                      det_total_wait = wc_total_wait s,
                                                      det_total_blocked = wc_total_blocked s \<rparr>))))))))"

text \<open>
  For the statements about the heatmaps: all positions of a trajectory lie inside the
  grid; the cell of a position; the neighbour a position intends to move to, as the
  specification words it: the first of the four neighbours, in the order of \<open>nbs\<close>, that
  lies inside the grid and whose distance is strictly less than that of the current
  cell; and the invariant of the second loop (the shapes of the two maps, the pressure
  map adding up to its counter, the wait map to at most its counter, and to exactly its
  counter when \<open>strict\<close> is set).
\<close>

definition all_in_grid :: "int \<Rightarrow> int \<Rightarrow> XY list list \<Rightarrow> bool" where
  "all_in_grid H W paths \<longleftrightarrow> (\<forall>row\<in>set paths. \<forall>p\<in>set row. in_grid H W p)"






section \<open>Properties of the run metrics\<close>

lemma scan_reach_lt:
  "scan_reach rows i gi t0 = Inr r \<Longrightarrow>
   (r < INF_VAL \<longleftrightarrow>
     (\<exists>k<length rows. t0 + k < INF_VAL \<and> i < length (rows ! k) \<and> rows ! k ! i = gi))"
proof (induction rows arbitrary: t0)
  case Nil
  then show ?case by simp
next
  case (Cons row rows)
  let ?R = "\<exists>k<length (row # rows). t0 + k < INF_VAL \<and> i < length ((row # rows) ! k)
              \<and> (row # rows) ! k ! i = gi"
  show ?case
  proof (cases "i < length row")
    case False
    with Cons.prems show ?thesis by (simp add: nth_err_def)
  next
    case True
    show ?thesis
    proof (cases "row ! i = gi")
      case hit: True
      with True Cons.prems have r: "r = t0" by (simp add: nth_err_def)
      show ?thesis
      proof
        assume "r < INF_VAL"
        with r hit True show ?R
          by (intro exI[of _ 0]) simp
      next
        assume ?R
        then show "r < INF_VAL" using r by auto
      qed
    next
      case miss: False
      with True Cons.prems have "scan_reach rows i gi (Suc t0) = Inr r"
        by (simp add: nth_err_def)
      from Cons.IH[OF this] have ih: "r < INF_VAL \<longleftrightarrow>
          (\<exists>k<length rows. Suc t0 + k < INF_VAL \<and> i < length (rows ! k) \<and> rows ! k ! i = gi)" .
      show ?thesis unfolding ih
      proof
        assume "\<exists>k<length rows. Suc t0 + k < INF_VAL \<and> i < length (rows ! k) \<and> rows ! k ! i = gi"
        then obtain k where "k < length rows" "Suc t0 + k < INF_VAL" "i < length (rows ! k)"
          "rows ! k ! i = gi" by blast
        then show ?R
          by (intro exI[of _ "Suc k"]) simp
      next
        assume ?R
        then obtain k where k: "k < length (row # rows)" "t0 + k < INF_VAL"
          "i < length ((row # rows) ! k)" "(row # rows) ! k ! i = gi" by blast
        with miss obtain k' where "k = Suc k'" by (cases k) auto
        with k show "\<exists>k<length rows. Suc t0 + k < INF_VAL \<and> i < length (rows ! k) \<and> rows ! k ! i = gi"
          by (intro exI[of _ k']) simp
      qed
    qed
  qed
qed

lemma reach_loop_length: "reach_loop paths goals is = Inr rs \<Longrightarrow> length rs = length is"
  by (induction "is" arbitrary: rs) (auto split: sum.splits)

lemma reach_loop_nth:
  "reach_loop paths goals is = Inr rs \<Longrightarrow> j < length is \<Longrightarrow>
   is ! j < length goals \<and> scan_reach paths (is ! j) (goals ! (is ! j)) 0 = Inr (rs ! j)"
proof (induction "is" arbitrary: rs j)
  case Nil
  then show ?case by simp
next
  case (Cons i "is")
  then show ?case
    by (cases j) (auto simp: nth_err_def split: sum.splits if_splits)
qed

lemma first_reach_times_nth:
  assumes "first_reach_times paths goals = Inr rs" "i < num_agents_of paths"
  shows "length rs = num_agents_of paths" "i < length goals"
    "scan_reach paths i (goals ! i) 0 = Inr (rs ! i)"
  using reach_loop_length[of paths goals _ rs]
    reach_loop_nth[of paths goals "[0..<num_agents_of paths]" rs i] assms
  by (auto simp: first_reach_times_def)

lemma first_reach_times_length:
  "first_reach_times paths goals = Inr rs \<Longrightarrow> length rs = num_agents_of paths"
  using reach_loop_length by (fastforce simp: first_reach_times_def)

lemma filter_all_length: "length (filter P xs) = length xs \<longleftrightarrow> (\<forall>j<length xs. P (xs ! j))"
  by (metis filter_id_conv in_set_conv_nth length_filter_less less_irrefl_nat filter_True)

text \<open>
  What \<open>summarize_run_metrics\<close> computes: whenever it returns, \<open>solved\<close> is 1 if every
  agent stands on its goal at some timestep of the trajectory (its first-reach time is
  below the sentinel) and the solver's return code is 0, and it is 0 otherwise.
\<close>

lemma solved_iff_all_reached:
  assumes "summarize_run_metrics paths goals wm cm rt rc = Inr m"
  shows "solved m = (if (\<forall>i<num_agents_of paths. reaches paths goals i) \<and> rc = 0 then 1 else 0)"
proof -
  from assms obtain rs where rs: "first_reach_times paths goals = Inr rs"
    and s: "solved m =
      (if length (filter (\<lambda>t. t < INF_VAL) rs) = num_agents_of paths \<and> rc = 0 then 1 else 0)"
    by (auto simp: summarize_run_metrics_def Let_def split: sum.splits)
  have len: "length rs = num_agents_of paths"
    using rs by (rule first_reach_times_length)
  have "(\<forall>j<length rs. rs ! j < INF_VAL) \<longleftrightarrow> (\<forall>i<num_agents_of paths. reaches paths goals i)"
    using first_reach_times_nth(3)[OF rs] scan_reach_lt len unfolding reaches_def
    by (metis add_0)
  then show ?thesis
    using s len filter_all_length[of "\<lambda>t. t < INF_VAL" rs] by simp
qed

text \<open>
  Claim C1 is not what the code does. A single agent starts on its goal \<open>(0,0)\<close> and
  stands on \<open>(1,0)\<close> in the last row, and the solver's return code is 0: the agent is not
  at its goal at the final timestep, yet \<open>summarize_run_metrics\<close> reports
  \<open>solved = 1\<close>, because it counts the first time the goal was touched. On the same
  trajectory the sibling \<open>compute_metrics\<close>, which looks at the last row as the claim
  says, reports \<open>reached = 0\<close> and \<open>solved = 0\<close>.
\<close>

theorem solved_despite_final_position:
  "summarize_run_metrics [[(0,0)],[(1,0)]] [(0,0)] [[0,0]] [[0,0]] () 0 =
     Inr \<lparr> num_agents = 1, makespan = 1, solved = 1, reached_agents = 1, total_wait = 0,
           total_collision = 0, runtime_s = (), solver_rc = 0 \<rparr>
   \<and> last [[(0,0)],[(1,0)]] ! 0 \<noteq> [(0,0) :: XY] ! 0
   \<and> compute_metrics [[(0,0)],[(1,0)]] [(0,0)] = Some (Inr (0, 0))"
  by (simp add: summarize_run_metrics_def first_reach_times_def num_agents_of_def nth_err_def
      sum2_def INF_VAL_def compute_metrics_def)

section \<open>Properties of the trajectory parser\<close>

lemma accepted_Cons:
  "accepted (line # lns) =
    (case match_tline line of None \<Rightarrow> accepted lns
     | Some (t, rest) \<Rightarrow> if findall_xy rest = [] then accepted lns else (t, findall_xy rest) # accepted lns)"
  by (simp add: accepted_def List.map_filter_simps split: option.splits)

lemma accepted_Nil: "accepted [] = []"
  by (simp add: accepted_def List.map_filter_simps)

lemma read_lines_expected:
  "read_lines lines (Some e) (ts, ps) =
     (case find (count_differs e) (accepted lines) of
        Some (t, xy) \<Rightarrow> Inl (AgentCountMismatch t (length xy) e)
      | None \<Rightarrow> Inr (ts @ map fst (accepted lines), ps @ map snd (accepted lines)))"
proof (induction lines arbitrary: ts ps)
  case Nil
  then show ?case by (simp add: accepted_Nil)
next
  case (Cons line lns)
  show ?case
    by (simp add: accepted_Cons Cons.IH Let_def count_differs_def split: option.splits)
qed

lemma read_lines_free:
  "read_lines lines None (ts, ps) = Inr (ts @ map fst (accepted lines), ps @ map snd (accepted lines))"
proof (induction lines arbitrary: ts ps)
  case Nil
  then show ?case by (simp add: accepted_Nil)
next
  case (Cons line lns)
  show ?case
    by (simp add: accepted_Cons Cons.IH Let_def split: option.splits)
qed

lemma check_increasing_ok: "check_increasing ts = Inr () \<longleftrightarrow> strictly_increasing ts"
  unfolding strictly_increasing_def
proof (induction ts rule: check_increasing.induct)
  case (1 a b ts)
  then show ?case  by (auto)
qed auto

lemma check_increasing_cases:
  "check_increasing ts = Inr () \<or> (\<exists>a b. check_increasing ts = Inl (NonIncreasing a b) \<and> b \<le> a)"
  by (induction ts rule: check_increasing.induct) auto

lemma check_increasing_err:
  "\<not> strictly_increasing ts \<Longrightarrow> \<exists>a b. check_increasing ts = Inl (NonIncreasing a b) \<and> b \<le> a"
  using check_increasing_cases[of ts] check_increasing_ok[of ts] by blast

lemma build_paths_error:
  "build_paths n ps pa = Inl err \<Longrightarrow> \<exists>a b. err = InconsistentAgentCount a b"
  by (induction n ps pa rule: build_paths.induct) (auto split: if_splits)

text \<open>
  Claim C7, as the code has it. The expected agent count is checked line by line while
  the text is read, before the ordering check. When an expected count is supplied and
  some accepted line holds a different number of pairs, the error is the agent-count
  mismatch of the first such line, carrying that line's timestep, whether or not the
  timesteps increase. The ordering violation is raised when no accepted line has a wrong
  count, at least one line is accepted and the accepted timesteps are not strictly
  increasing. An agent-count mismatch always names the first offending line's timestep.
\<close>

theorem count_check_precedes_order_check:
  "(find (count_differs e) (accepted lines) = Some (t, xy) \<longrightarrow>
      parse_output_txt lines (Some e) = Inl (AgentCountMismatch t (length xy) e))
 \<and> (find (count_differs e) (accepted lines) = None \<and> accepted lines \<noteq> [] \<and>
      \<not> strictly_increasing (map fst (accepted lines)) \<longrightarrow>
      (\<exists>a b. parse_output_txt lines (Some e) = Inl (NonIncreasing a b) \<and> b \<le> a))
 \<and> (parse_output_txt lines (Some e) = Inl (AgentCountMismatch t' g e') \<longrightarrow>
      (\<exists>ys. find (count_differs e) (accepted lines) = Some (t', ys) \<and> g = length ys \<and> e' = e))"
proof (intro conjI impI)
  assume "find (count_differs e) (accepted lines) = Some (t, xy)"
  then show "parse_output_txt lines (Some e) = Inl (AgentCountMismatch t (length xy) e)"
    by (simp add: parse_output_txt_def read_lines_expected)
next
  assume a: "find (count_differs e) (accepted lines) = None \<and> accepted lines \<noteq> [] \<and>
      \<not> strictly_increasing (map fst (accepted lines))"
  then obtain x y where "check_increasing (map fst (accepted lines)) = Inl (NonIncreasing x y)"
    "y \<le> x"
    using check_increasing_err by blast
  with a show "\<exists>a b. parse_output_txt lines (Some e) = Inl (NonIncreasing a b) \<and> b \<le> a"
    by (simp add: parse_output_txt_def read_lines_expected)
next
  assume r: "parse_output_txt lines (Some e) = Inl (AgentCountMismatch t' g e')"
  show "\<exists>ys. find (count_differs e) (accepted lines) = Some (t', ys) \<and> g = length ys \<and> e' = e"
  proof (cases "find (count_differs e) (accepted lines)")
    case (Some a)
    with r show ?thesis
      by (cases a) (simp add: parse_output_txt_def read_lines_expected)
  next
    case None
    with r show ?thesis
      using check_increasing_cases[of "map fst (accepted lines)"]
      by (auto simp: parse_output_txt_def read_lines_expected Let_def
          split: if_splits sum.splits dest: build_paths_error)
  qed
qed



lemma accepted_mixed:
  "accepted [''5:(0,0)'', ''3:(1,1)'', ''7:(0,0),(2,2)''] =
     [(5, [(0,0)]), (3, [(1,1)]), (7, [(0,0), (2,2)])]"
  by code_simp

lemma accepted_descending:
  "accepted [''5:(0,0)'', ''3:(1,1)''] = [(5, [(0,0)]), (3, [(1,1)])]"
  by code_simp

theorem count_check_precedes_order_check_witness:
  "parse_output_txt [''5:(0,0)'', ''3:(1,1)'', ''7:(0,0),(2,2)''] (Some 1) =
     Inl (AgentCountMismatch 7 2 1)
   \<and> (\<exists>a b. parse_output_txt [''5:(0,0)'', ''3:(1,1)''] (Some 1) = Inl (NonIncreasing a b)
        \<and> b \<le> a)"
proof -
  have f1: "find (count_differs 1) (accepted [''5:(0,0)'', ''3:(1,1)'', ''7:(0,0),(2,2)'']) =
      Some (7, [(0,0), (2,2)])"
    by (simp add: accepted_mixed count_differs_def)
  have f2: "find (count_differs 1) (accepted [''5:(0,0)'', ''3:(1,1)'']) = None
      \<and> accepted [''5:(0,0)'', ''3:(1,1)''] \<noteq> []
      \<and> \<not> strictly_increasing (map fst (accepted [''5:(0,0)'', ''3:(1,1)'']))"
    by (simp add: accepted_descending count_differs_def strictly_increasing_def)
  have "parse_output_txt [''5:(0,0)'', ''3:(1,1)'', ''7:(0,0),(2,2)''] (Some 1) =
      Inl (AgentCountMismatch 7 (length [(0,0), (2,2) :: XY]) 1)"
    using count_check_precedes_order_check
      [of 1 "[''5:(0,0)'', ''3:(1,1)'', ''7:(0,0),(2,2)'']" 7 "[(0,0), (2,2)]" 0 0 0] f1
    by blast
  moreover have "\<exists>a b. parse_output_txt [''5:(0,0)'', ''3:(1,1)''] (Some 1) =
      Inl (NonIncreasing a b) \<and> b \<le> a"
    using count_check_precedes_order_check [of 1 "[''5:(0,0)'', ''3:(1,1)'']" 0 "[]" 0 0 0] f2
    by blast
  ultimately show ?thesis by simp
qed

text \<open>
  The claim as written fails: in the text below the accepted timesteps 5, 3 do not
  increase and the line of timestep 7 holds two pairs where one is expected; the error
  is the agent-count mismatch at timestep 7, not the ordering violation.
\<close>

theorem order_check_first_counterexample:
  "\<not> strictly_increasing (map fst (accepted [''5:(0,0)'', ''3:(1,1)'', ''7:(0,0),(2,2)'']))
   \<and> find (count_differs 1) (accepted [''5:(0,0)'', ''3:(1,1)'', ''7:(0,0),(2,2)'']) =
       Some (7, [(0,0), (2,2)])
   \<and> parse_output_txt [''5:(0,0)'', ''3:(1,1)'', ''7:(0,0),(2,2)''] (Some 1) =
       Inl (AgentCountMismatch 7 2 1)"
  by (simp add: accepted_mixed count_differs_def strictly_increasing_def parse_output_txt_def
      read_lines_expected)

section \<open>Properties of the aggregation\<close>

lemma those_map_Some: "(\<forall>x\<in>set xs. f x = Some x) \<Longrightarrow> those (map f xs) = Some xs"
  by (induction xs) auto

lemma bcast_rect: "rect b H W \<Longrightarrow> bcast H W b = Some b"
proof -
  assume r: "rect b H W"
  then have "those (map (bcast_row W) b) = Some b"
    by (intro those_map_Some) (simp add: rect_def bcast_row_def)
  with r show ?thesis by (simp add: bcast_def rect_def)
qed

lemma iadd_rect: "rect b H W \<Longrightarrow> iadd H W acc b = Inr (add2 acc b)"
  by (simp add: iadd_def bcast_rect)

lemma rect_nth: "rect a H W \<Longrightarrow> y < H \<Longrightarrow> length (a ! y) = W"
  by (simp add: rect_def)

lemma rect_add2: "rect a H W \<Longrightarrow> rect b H W \<Longrightarrow> rect (add2 a b) H W"
  by (auto simp: rect_def add2_def set_zip)

lemma add2_nth:
  "rect a H W \<Longrightarrow> rect b H W \<Longrightarrow> y < H \<Longrightarrow> x < W \<Longrightarrow> add2 a b ! y ! x = a ! y ! x + b ! y ! x"
  by (simp add: rect_def add2_def)

lemma rect_zeros: "rect (zeros H W) H W"
  by (simp add: rect_def zeros_def)

lemma zeros_nth: "y < H \<Longrightarrow> x < W \<Longrightarrow> zeros H W ! y ! x = 0"
  by (simp add: zeros_def)

lemma rect_eqI:
  assumes "rect a H W" "rect b H W" "\<And>y x. y < H \<Longrightarrow> x < W \<Longrightarrow> a ! y ! x = b ! y ! x"
  shows "a = b"
proof (rule nth_equalityI)
  show "length a = length b" using assms by (simp add: rect_def)
next
  fix y assume y: "y < length a"
  then have yH: "y < H" using assms(1) by (simp add: rect_def)
  show "a ! y = b ! y"
  proof (rule nth_equalityI)
    show "length (a ! y) = length (b ! y)" using yH assms(1,2) by (simp add: rect_nth)
  next
    fix x assume "x < length (a ! y)"
    then have "x < W" using yH assms(1) by (simp add: rect_nth)
    with yH show "a ! y ! x = b ! y ! x" by (rule assms(3))
  qed
qed

lemma foldl_add2_rect:
  "rect z H W \<Longrightarrow> (\<forall>a\<in>set as. rect a H W) \<Longrightarrow> rect (foldl add2 z as) H W"
  by (induction as arbitrary: z) (auto simp: rect_add2)

lemma foldl_add2_nth:
  "rect z H W \<Longrightarrow> (\<forall>a\<in>set as. rect a H W) \<Longrightarrow> y < H \<Longrightarrow> x < W \<Longrightarrow>
   foldl add2 z as ! y ! x = z ! y ! x + sum_list (map (\<lambda>a. a ! y ! x) as)"
proof (induction as arbitrary: z)
  case Nil
  then show ?case by simp
next
  case (Cons a as)
  then have "foldl add2 (add2 z a) as ! y ! x = add2 z a ! y ! x + sum_list (map (\<lambda>a. a ! y ! x) as)"
    by (intro Cons.IH) (auto simp: rect_add2)
  with Cons.prems show ?case by (simp add: add2_nth add.assoc)
qed

lemma sum_arrays_perm:
  assumes "mset as = mset bs" "\<forall>a\<in>set as. rect a H W"
  shows "sum_arrays H W as = sum_arrays H W bs"
proof -
  have "set as = set bs"
    using assms(1) by (rule mset_eq_setD)
  then have sb: "\<forall>a\<in>set bs. rect a H W"
    using assms(2) by simp
  show ?thesis unfolding sum_arrays_def
  proof (rule rect_eqI[where H = H and W = W])
    show "rect (foldl add2 (zeros H W) as) H W" using assms(2) by (simp add: foldl_add2_rect rect_zeros)
    show "rect (foldl add2 (zeros H W) bs) H W" using sb by (simp add: foldl_add2_rect rect_zeros)
  next
    fix y x assume yx: "y < H" "x < W"
    have "mset (map (\<lambda>a. a ! y ! x) as) = mset (map (\<lambda>a. a ! y ! x) bs)"
      using assms(1) by simp
    then have "sum_mset (mset (map (\<lambda>a. a ! y ! x) as)) = sum_mset (mset (map (\<lambda>a. a ! y ! x) bs))"
      by (rule arg_cong)
    then have "sum_list (map (\<lambda>a. a ! y ! x) as) = sum_list (map (\<lambda>a. a ! y ! x) bs)"
      by (simp only: sum_mset_sum_list)
    then have e: "sum_list (map (\<lambda>a. a ! y ! x) as) = sum_list (map (\<lambda>a. a ! y ! x) bs)" .
    have a: "foldl add2 (zeros H W) as ! y ! x = zeros H W ! y ! x + sum_list (map (\<lambda>a. a ! y ! x) as)"
      using rect_zeros assms(2) yx by (rule foldl_add2_nth)
    have b: "foldl add2 (zeros H W) bs ! y ! x = zeros H W ! y ! x + sum_list (map (\<lambda>a. a ! y ! x) bs)"
      using rect_zeros sb yx by (rule foldl_add2_nth)
    show "foldl add2 (zeros H W) as ! y ! x = foldl add2 (zeros H W) bs ! y ! x"
      unfolding a b e ..
  qed
qed

lemma sum_arrays_append:
  assumes "\<forall>a\<in>set as. rect a H W" "\<forall>a\<in>set bs. rect a H W"
  shows "sum_arrays H W (as @ bs) = add2 (sum_arrays H W as) (sum_arrays H W bs)"
  unfolding sum_arrays_def
proof (rule rect_eqI[where H = H and W = W])
  show "rect (foldl add2 (zeros H W) (as @ bs)) H W"
    using assms by (intro foldl_add2_rect) (auto simp: rect_zeros)
  show "rect (add2 (foldl add2 (zeros H W) as) (foldl add2 (zeros H W) bs)) H W"
    using assms by (intro rect_add2 foldl_add2_rect) (auto simp: rect_zeros)
next
  fix y x assume yx: "y < H" "x < W"
  have "foldl add2 (zeros H W) (as @ bs) ! y ! x = 
     zeros H W ! y ! x + sum_list (map (\<lambda>a. a ! y ! x) (as @ bs))"
    using assms yx by (intro foldl_add2_nth) (auto simp: rect_zeros)
  moreover have "add2 (foldl add2 (zeros H W) as) (foldl add2 (zeros H W) bs) ! y ! x =
     foldl add2 (zeros H W) as ! y ! x + foldl add2 (zeros H W) bs ! y ! x"
    using assms yx by (intro add2_nth[where H = H and W = W] foldl_add2_rect) (auto simp: rect_zeros)
  moreover have "foldl add2 (zeros H W) as ! y ! x = zeros H W ! y ! x + sum_list (map (\<lambda>a. a ! y ! x) as)"
    using assms yx by (intro foldl_add2_nth) (auto simp: rect_zeros)
  moreover have "foldl add2 (zeros H W) bs ! y ! x = zeros H W ! y ! x + sum_list (map (\<lambda>a. a ! y ! x) bs)"
    using assms yx by (intro foldl_add2_nth) (auto simp: rect_zeros)
  ultimately show "foldl add2 (zeros H W) (as @ bs) ! y ! x =
     add2 (foldl add2 (zeros H W) as) (foldl add2 (zeros H W) bs) ! y ! x"
    using yx by (simp only: zeros_nth map_append sum_list_append add_0)
qed


lemma agg_step_counts:
  "agg_step os H W s f = Inr s' \<Longrightarrow>
     solved_cnt s' = solved_cnt s + (if sidecar_solved f = Some 1 then 1 else 0)
   \<and> used s' = used s @ (if passes os f then [file_name f] else [])
   \<and> makespans s' = makespans s @ (if passes os f then [npz_makespan (npz f)] else [])"
  by (cases "sidecar_solved f")
    (auto simp: agg_step_def passes_def Let_def split: if_splits sum.splits)

lemma agg_loop_counts:
  "agg_loop os H W s fs = Inr s' \<Longrightarrow>
     solved_cnt s' = solved_cnt s + length (filter (\<lambda>f. sidecar_solved f = Some 1) fs)
   \<and> used s' = used s @ map file_name (filter (passes os) fs)
   \<and> makespans s' = makespans s @ map (\<lambda>f. npz_makespan (npz f)) (filter (passes os) fs)"
proof (induction fs arbitrary: s)
  case Nil
  then show ?case by simp
next
  case (Cons f fs)
  from Cons.prems obtain s1 where s1: "agg_step os H W s f = Inr s1"
    and l: "agg_loop os H W s1 fs = Inr s'"
    by (auto split: sum.splits)
  from agg_step_counts[OF s1] Cons.IH[OF l] show ?case by simp
qed

lemma agg_step_skip:
  "\<not> passes os f \<Longrightarrow> agg_step os H W s f = Inr s"
  by (cases "sidecar_solved f") (auto simp: agg_step_def passes_def Let_def)

lemma agg_step_add:
  assumes "passes os f" "well_shaped H W f"
  shows "\<exists>s'. agg_step os H W s f = Inr s'
     \<and> wait_sum s' = add2 (wait_sum s) (npz_wait (npz f))
     \<and> pressure_sum s' = add2 (pressure_sum s) (npz_pressure (npz f))
     \<and> occ_sum s' = add2 (occ_sum s) (npz_occ (npz f))"
  using assms
  by (cases "sidecar_solved f")
    (auto simp: agg_step_def passes_def well_shaped_def Let_def iadd_rect)

lemma agg_loop_sums:
  assumes "\<forall>f\<in>set fs. well_shaped H W f"
  shows "\<exists>s'. agg_loop os H W s fs = Inr s'
     \<and> wait_sum s' = foldl add2 (wait_sum s) (map (\<lambda>f. npz_wait (npz f)) (filter (passes os) fs))
     \<and> pressure_sum s' = foldl add2 (pressure_sum s) (map (\<lambda>f. npz_pressure (npz f)) (filter (passes os) fs))
     \<and> occ_sum s' = foldl add2 (occ_sum s) (map (\<lambda>f. npz_occ (npz f)) (filter (passes os) fs))"
  using assms
proof (induction fs arbitrary: s)
  case Nil
  then show ?case by simp
next
  case (Cons f fs)
  show ?case
  proof (cases "passes os f")
    case False
    then show ?thesis using Cons.IH[of s] Cons.prems by (simp add: agg_step_skip)
  next
    case True
    from agg_step_add[OF True, of H W s] Cons.prems obtain s1 where
      s1: "agg_step os H W s f = Inr s1"
      "wait_sum s1 = add2 (wait_sum s) (npz_wait (npz f))"
      "pressure_sum s1 = add2 (pressure_sum s) (npz_pressure (npz f))"
      "occ_sum s1 = add2 (occ_sum s) (npz_occ (npz f))" by auto
    from Cons.IH[of s1] Cons.prems s1 True show ?thesis by simp
  qed
qed


lemma aggregate_main_sums:
  assumes "\<forall>f\<in>set fs. well_shaped H W f" "fs \<noteq> []" "0 \<le> H" "0 \<le> W"
  shows "\<exists>r. aggregate_main os fs = Inr r
     \<and> wait_sum (agg_sums r) = sum_arrays (nat H) (nat W) (map (\<lambda>f. npz_wait (npz f)) (filter (passes os) fs))
     \<and> pressure_sum (agg_sums r) = sum_arrays (nat H) (nat W) (map (\<lambda>f. npz_pressure (npz f)) (filter (passes os) fs))
     \<and> occ_sum (agg_sums r) = sum_arrays (nat H) (nat W) (map (\<lambda>f. npz_occ (npz f)) (filter (passes os) fs))"
proof -
  from assms(2) obtain f0 rest where fs: "fs = f0 # rest" by (cases fs) auto
  with assms(1) have hw: "npz_H (npz f0) = H" "npz_W (npz f0) = W"
    by (simp_all add: well_shaped_def)
  from agg_loop_sums[OF assms(1), of os "init_state H W"] obtain s' where
    "agg_loop os H W (init_state H W) fs = Inr s'"
    "wait_sum s' = foldl add2 (wait_sum (init_state H W)) (map (\<lambda>f. npz_wait (npz f)) (filter (passes os) fs))"
    "pressure_sum s' = foldl add2 (pressure_sum (init_state H W)) (map (\<lambda>f. npz_pressure (npz f)) (filter (passes os) fs))"
    "occ_sum s' = foldl add2 (occ_sum (init_state H W)) (map (\<lambda>f. npz_occ (npz f)) (filter (passes os) fs))"
    by blast
  then show ?thesis
    using hw assms(3,4) unfolding fs
    by (simp add: aggregate_main_def sum_arrays_def init_state_def del: agg_loop.simps)
qed

lemma sum_field_perm:
  assumes "mset fs' = mset fs" "\<forall>f\<in>set fs. rect (g f) h w"
  shows "sum_arrays h w (map g (filter P fs')) = sum_arrays h w (map g (filter P fs))"
proof (rule sum_arrays_perm)
  show "mset (map g (filter P fs')) = mset (map g (filter P fs))"
    using assms(1) by simp
  have "set fs' = set fs" using assms(1) by (rule mset_eq_setD)
  then show "\<forall>a\<in>set (map g (filter P fs')). rect a h w"
    using assms(2) by auto
qed

lemma sum_field_append:
  assumes "\<forall>f\<in>set (xs @ ys). rect (g f) h w"
  shows "sum_arrays h w (map g (filter P (xs @ ys))) =
    add2 (sum_arrays h w (map g (filter P xs))) (sum_arrays h w (map g (filter P ys)))"
proof -
  have "sum_arrays h w (map g (filter P xs) @ map g (filter P ys)) =
    add2 (sum_arrays h w (map g (filter P xs))) (sum_arrays h w (map g (filter P ys)))"
    using assms by (intro sum_arrays_append) auto
  then show ?thesis by simp
qed

lemma agg_loop_init_sums:
  assumes "\<forall>f\<in>set fs. well_shaped H W f"
  shows "\<exists>s'. agg_loop os H W (init_state H W) fs = Inr s'
     \<and> wait_sum s' = sum_arrays (nat H) (nat W) (map (\<lambda>f. npz_wait (npz f)) (filter (passes os) fs))
     \<and> pressure_sum s' = sum_arrays (nat H) (nat W) (map (\<lambda>f. npz_pressure (npz f)) (filter (passes os) fs))
     \<and> occ_sum s' = sum_arrays (nat H) (nat W) (map (\<lambda>f. npz_occ (npz f)) (filter (passes os) fs))"
  using agg_loop_sums[OF assms, of os "init_state H W"]
  by (simp add: sum_arrays_def init_state_def)

text \<open>
  Claim C9. Take runs whose declared and actual shapes are all \<open>H\<close> by \<open>W\<close>. Folding
  them in any order gives the same \<open>wait_sum\<close>, \<open>pressure_sum\<close> and \<open>occ_sum\<close>; and for
  any split of the runs into two parts, each part folded on its own from the zero
  arrays, the cell-wise sum of the two partial results is the result of the whole fold.
  The additions are those of \<open>int64\<close>, so this holds with wrap-around as well.
\<close>

theorem sums_order_independent:
  assumes "mset fs' = mset fs" "mset (xs @ ys) = mset fs"
    and "\<forall>f\<in>set fs. well_shaped H W f" "fs \<noteq> []" "0 \<le> H" "0 \<le> W"
  shows "\<exists>r r' sx sy.
      aggregate_main os fs = Inr r \<and> aggregate_main os fs' = Inr r'
    \<and> wait_sum (agg_sums r') = wait_sum (agg_sums r)
    \<and> pressure_sum (agg_sums r') = pressure_sum (agg_sums r)
    \<and> occ_sum (agg_sums r') = occ_sum (agg_sums r)
    \<and> agg_loop os H W (init_state H W) xs = Inr sx
    \<and> agg_loop os H W (init_state H W) ys = Inr sy
    \<and> wait_sum (agg_sums r) = add2 (wait_sum sx) (wait_sum sy)
    \<and> pressure_sum (agg_sums r) = add2 (pressure_sum sx) (pressure_sum sy)
    \<and> occ_sum (agg_sums r) = add2 (occ_sum sx) (occ_sum sy)"
proof -
  let ?h = "nat H" and ?w = "nat W" and ?P = "passes os"
  let ?gw = "\<lambda>f. npz_wait (npz f)" and ?gp = "\<lambda>f. npz_pressure (npz f)"
    and ?go = "\<lambda>f. npz_occ (npz f)"
  have sets: "set fs' = set fs" "set (xs @ ys) = set fs"
    using mset_eq_setD[OF assms(1)] mset_eq_setD[OF assms(2)] by blast+
  have ne: "fs' \<noteq> []" using sets(1) assms(4) by auto
  have ws': "\<forall>f\<in>set fs'. well_shaped H W f" using sets(1) assms(3) by simp
  have wsx: "\<forall>f\<in>set xs. well_shaped H W f" and wsy: "\<forall>f\<in>set ys. well_shaped H W f"
    using sets(2) assms(3) by auto
  have rw: "\<forall>f\<in>set fs. rect (?gw f) ?h ?w" and rp: "\<forall>f\<in>set fs. rect (?gp f) ?h ?w"
    and ro: "\<forall>f\<in>set fs. rect (?go f) ?h ?w"
    using assms(3) by (simp_all add: well_shaped_def)
  have rxy: "\<forall>f\<in>set (xs @ ys). rect (?gw f) ?h ?w" "\<forall>f\<in>set (xs @ ys). rect (?gp f) ?h ?w"
    "\<forall>f\<in>set (xs @ ys). rect (?go f) ?h ?w"
    using rw rp ro unfolding sets(2) by simp_all
  from aggregate_main_sums[OF assms(3,4,5,6), of os] obtain r where r:
    "aggregate_main os fs = Inr r"
    "wait_sum (agg_sums r) = sum_arrays ?h ?w (map ?gw (filter ?P fs))"
    "pressure_sum (agg_sums r) = sum_arrays ?h ?w (map ?gp (filter ?P fs))"
    "occ_sum (agg_sums r) = sum_arrays ?h ?w (map ?go (filter ?P fs))" by blast
  from aggregate_main_sums[OF ws' ne assms(5,6), of os] obtain r' where r':
    "aggregate_main os fs' = Inr r'"
    "wait_sum (agg_sums r') = sum_arrays ?h ?w (map ?gw (filter ?P fs'))"
    "pressure_sum (agg_sums r') = sum_arrays ?h ?w (map ?gp (filter ?P fs'))"
    "occ_sum (agg_sums r') = sum_arrays ?h ?w (map ?go (filter ?P fs'))" by blast
  from agg_loop_init_sums[OF wsx, of os] obtain sx where sx:
    "agg_loop os H W (init_state H W) xs = Inr sx"
    "wait_sum sx = sum_arrays ?h ?w (map ?gw (filter ?P xs))"
    "pressure_sum sx = sum_arrays ?h ?w (map ?gp (filter ?P xs))"
    "occ_sum sx = sum_arrays ?h ?w (map ?go (filter ?P xs))" by blast
  from agg_loop_init_sums[OF wsy, of os] obtain sy where sy:
    "agg_loop os H W (init_state H W) ys = Inr sy"
    "wait_sum sy = sum_arrays ?h ?w (map ?gw (filter ?P ys))"
    "pressure_sum sy = sum_arrays ?h ?w (map ?gp (filter ?P ys))"
    "occ_sum sy = sum_arrays ?h ?w (map ?go (filter ?P ys))" by blast
  have p1: "wait_sum (agg_sums r') = wait_sum (agg_sums r)"
    unfolding r r' using assms(1) rw by (rule sum_field_perm)
  have p2: "pressure_sum (agg_sums r') = pressure_sum (agg_sums r)"
    unfolding r r' using assms(1) rp by (rule sum_field_perm)
  have p3: "occ_sum (agg_sums r') = occ_sum (agg_sums r)"
    unfolding r r' using assms(1) ro by (rule sum_field_perm)
  have q1: "wait_sum (agg_sums r) = add2 (wait_sum sx) (wait_sum sy)"
    unfolding r sx sy
    using sum_field_perm[OF assms(2) rw, of ?P] sum_field_append[OF rxy(1), of ?P] by simp
  have q2: "pressure_sum (agg_sums r) = add2 (pressure_sum sx) (pressure_sum sy)"
    unfolding r sx sy
    using sum_field_perm[OF assms(2) rp, of ?P] sum_field_append[OF rxy(2), of ?P] by simp
  have q3: "occ_sum (agg_sums r) = add2 (occ_sum sx) (occ_sum sy)"
    unfolding r sx sy
    using sum_field_perm[OF assms(2) ro, of ?P] sum_field_append[OF rxy(3), of ?P] by simp
  from r(1) r'(1) sx(1) sy(1) p1 p2 p3 q1 q2 q3 show ?thesis by blast
qed

lemma demo_well_shaped: "well_shaped 1 2 (demo_file name sc v)"
  by (simp add: well_shaped_def demo_file_def rect_def)

theorem sums_order_independent_witness:
  "\<exists>r r' sx sy.
      aggregate_main True [demo_file ''a'' (Some 1) 5, demo_file ''b'' None 7] = Inr r
    \<and> aggregate_main True [demo_file ''b'' None 7, demo_file ''a'' (Some 1) 5] = Inr r'
    \<and> wait_sum (agg_sums r') = wait_sum (agg_sums r)
    \<and> pressure_sum (agg_sums r') = pressure_sum (agg_sums r)
    \<and> occ_sum (agg_sums r') = occ_sum (agg_sums r)
    \<and> agg_loop True 1 2 (init_state 1 2) [demo_file ''b'' None 7] = Inr sx
    \<and> agg_loop True 1 2 (init_state 1 2) [demo_file ''a'' (Some 1) 5] = Inr sy
    \<and> wait_sum (agg_sums r) = add2 (wait_sum sx) (wait_sum sy)
    \<and> pressure_sum (agg_sums r) = add2 (pressure_sum sx) (pressure_sum sy)
    \<and> occ_sum (agg_sums r) = add2 (occ_sum sx) (occ_sum sy)"
proof (rule sums_order_independent)
  show "mset [demo_file ''b'' None 7, demo_file ''a'' (Some 1) 5] =
        mset [demo_file ''a'' (Some 1) 5, demo_file ''b'' None 7]"
    by simp
  show "mset ([demo_file ''b'' None 7] @ [demo_file ''a'' (Some 1) 5]) =
        mset [demo_file ''a'' (Some 1) 5, demo_file ''b'' None 7]"
    by simp
  show "\<forall>f\<in>set [demo_file ''a'' (Some 1) 5, demo_file ''b'' None 7]. well_shaped 1 2 f"
    by (simp add: demo_well_shaped)
qed simp_all


lemma agg_step_no_sidecar:
  assumes "sidecar_solved f = None" "well_shaped H W f"
  shows "\<exists>s'. agg_step os H W s f = Inr s'
     \<and> wait_sum s' = add2 (wait_sum s) (npz_wait (npz f))
     \<and> pressure_sum s' = add2 (pressure_sum s) (npz_pressure (npz f))
     \<and> occ_sum s' = add2 (occ_sum s) (npz_occ (npz f))
     \<and> used s' = used s @ [file_name f]
     \<and> solved_cnt s' = solved_cnt s"
  using assms
  by (simp add: agg_step_def well_shaped_def Let_def iadd_rect)

lemma length_filter_le_filter:
  "(\<And>x. P x \<Longrightarrow> Q x) \<Longrightarrow> length (filter P xs) \<le> length (filter Q xs)"
  by (induction xs) auto

text \<open>
  Claim C10. A run without sidecar whose shape fits is always added to the three sums
  and to the list of used runs, whatever \<open>only_solved\<close> says, and leaves \<open>solved_cnt\<close>
  unchanged. Whenever the aggregation returns, \<open>solved_cnt\<close> is the number of runs
  whose sidecar exists and says solved, the used runs are those that pass the filter
  (every run without sidecar among them), and \<open>solved_rate\<close> is that count over the
  number of all files: at most the share of the runs that have a sidecar.
\<close>

theorem missing_sidecar_used_not_counted:
  "(sidecar_solved f = None \<and> well_shaped H W f \<longrightarrow>
      (\<exists>s'. agg_step only_solved H W s f = Inr s'
         \<and> wait_sum s' = add2 (wait_sum s) (npz_wait (npz f))
         \<and> pressure_sum s' = add2 (pressure_sum s) (npz_pressure (npz f))
         \<and> occ_sum s' = add2 (occ_sum s) (npz_occ (npz f))
         \<and> used s' = used s @ [file_name f]
         \<and> solved_cnt s' = solved_cnt s))
 \<and> (aggregate_main only_solved fs = Inr r \<longrightarrow>
        solved_cnt (agg_sums r) = length (filter (\<lambda>f. sidecar_solved f = Some 1) fs)
      \<and> used (agg_sums r) = map file_name (filter (passes only_solved) fs)
      \<and> (\<forall>g\<in>set fs. sidecar_solved g = None \<longrightarrow> file_name g \<in> set (used (agg_sums r)))
      \<and> solved_rate r =
          of_nat (length (filter (\<lambda>f. sidecar_solved f = Some 1) fs)) / of_nat (length fs)
      \<and> solved_rate r \<le>
          of_nat (length (filter (\<lambda>f. sidecar_solved f \<noteq> None) fs)) / of_nat (length fs))"
proof (intro conjI impI)
  assume "sidecar_solved f = None \<and> well_shaped H W f"
  then show "\<exists>s'. agg_step only_solved H W s f = Inr s'
         \<and> wait_sum s' = add2 (wait_sum s) (npz_wait (npz f))
         \<and> pressure_sum s' = add2 (pressure_sum s) (npz_pressure (npz f))
         \<and> occ_sum s' = add2 (occ_sum s) (npz_occ (npz f))
         \<and> used s' = used s @ [file_name f]
         \<and> solved_cnt s' = solved_cnt s"
    using agg_step_no_sidecar by blast
next
  assume a: "aggregate_main only_solved fs = Inr r"
  then obtain f0 rest where fs: "fs = f0 # rest"
    by (cases fs) (auto simp: aggregate_main_def)
  from a obtain s' where
    l: "agg_loop only_solved (npz_H (npz f0)) (npz_W (npz f0))
          (init_state (npz_H (npz f0)) (npz_W (npz f0))) fs = Inr s'"
    and r: "agg_sums r = s'" "solved_rate r = of_nat (solved_cnt s') / of_nat (length fs)"
    unfolding fs
    by (auto simp: aggregate_main_def Let_def simp del: agg_loop.simps split: if_splits sum.splits)
  from agg_loop_counts[OF l]
  have c: "solved_cnt s' = length (filter (\<lambda>f. sidecar_solved f = Some 1) fs)"
    and u: "used s' = map file_name (filter (passes only_solved) fs)"
    by (simp_all add: init_state_def)
  show "solved_cnt (agg_sums r) = length (filter (\<lambda>f. sidecar_solved f = Some 1) fs)"
    using c r by simp
  show "used (agg_sums r) = map file_name (filter (passes only_solved) fs)"
    using u r by simp
  show "\<forall>g\<in>set fs. sidecar_solved g = None \<longrightarrow> file_name g \<in> set (used (agg_sums r))"
    using u r by (auto simp: passes_def)
  show "solved_rate r =
      of_nat (length (filter (\<lambda>f. sidecar_solved f = Some 1) fs)) / of_nat (length fs)"
    using c r by simp
  have "length (filter (\<lambda>f. sidecar_solved f = Some 1) fs)
      \<le> length (filter (\<lambda>f. sidecar_solved f \<noteq> None) fs)"
    by (rule length_filter_le_filter) simp
  then have "(of_nat (length (filter (\<lambda>f. sidecar_solved f = Some 1) fs)) :: rat)
      \<le> of_nat (length (filter (\<lambda>f. sidecar_solved f \<noteq> None) fs))"
    by simp
  then show "solved_rate r \<le>
      of_nat (length (filter (\<lambda>f. sidecar_solved f \<noteq> None) fs)) / of_nat (length fs)"
    unfolding r(2) c by (intro divide_right_mono) simp_all
qed

lemma demo_main:
  "aggregate_main True [demo_file ''a'' (Some 1) 5, demo_file ''b'' None 7,
      demo_file ''c'' (Some 0) 9] =
   Inr \<lparr> agg_sums = \<lparr> wait_sum = [[12, 0]], pressure_sum = [[0, 12]], occ_sum = [[12, 12]],
                      makespans = [3, 3], used = [''a'', ''b''], solved_cnt = 1 \<rparr>,
         agg_obstacles = [[0, 0]], num_instances_total = 3, num_instances_used = 2,
         solved_rate = 1 / 3 \<rparr>"
  by (simp add: aggregate_main_def demo_file_def agg_step_def init_state_def zeros_def iadd_def
      bcast_def bcast_row_def add2_def Let_def eval_nat_numeral)

theorem missing_sidecar_used_not_counted_witness:
  "(\<exists>s'. agg_step True 1 2 (init_state 1 2) (demo_file ''b'' None 7) = Inr s'
      \<and> wait_sum s' = add2 (wait_sum (init_state 1 2)) (npz_wait (npz (demo_file ''b'' None 7)))
      \<and> pressure_sum s' =
          add2 (pressure_sum (init_state 1 2)) (npz_pressure (npz (demo_file ''b'' None 7)))
      \<and> occ_sum s' = add2 (occ_sum (init_state 1 2)) (npz_occ (npz (demo_file ''b'' None 7)))
      \<and> used s' = used (init_state 1 2) @ [file_name (demo_file ''b'' None 7)]
      \<and> solved_cnt s' = solved_cnt (init_state 1 2))
   \<and> (\<exists>r. aggregate_main True [demo_file ''a'' (Some 1) 5, demo_file ''b'' None 7,
            demo_file ''c'' (Some 0) 9] = Inr r
        \<and> solved_cnt (agg_sums r) = 1 \<and> used (agg_sums r) = [''a'', ''b'']
        \<and> solved_rate r = 1 / 3)"
proof (rule conjI)
  have h1: "sidecar_solved (demo_file ''b'' None 7) = None \<and> well_shaped 1 2 (demo_file ''b'' None 7)"
    by (simp add: demo_well_shaped) (simp add: demo_file_def)
  note t = missing_sidecar_used_not_counted
    [of "demo_file ''b'' None 7" 1 2 True "init_state 1 2"
        "[demo_file ''a'' (Some 1) 5, demo_file ''b'' None 7, demo_file ''c'' (Some 0) 9]"
        "\<lparr> agg_sums = \<lparr> wait_sum = [[12, 0]], pressure_sum = [[0, 12]],
                        occ_sum = [[12, 12]], makespans = [3, 3], used = [''a'', ''b''],
                        solved_cnt = 1 \<rparr>,
           agg_obstacles = [[0, 0]], num_instances_total = 3, num_instances_used = 2,
           solved_rate = 1 / 3 \<rparr>"]
  from t h1 show "\<exists>s'. agg_step True 1 2 (init_state 1 2) (demo_file ''b'' None 7) = Inr s'
      \<and> wait_sum s' = add2 (wait_sum (init_state 1 2)) (npz_wait (npz (demo_file ''b'' None 7)))
      \<and> pressure_sum s' =
          add2 (pressure_sum (init_state 1 2)) (npz_pressure (npz (demo_file ''b'' None 7)))
      \<and> occ_sum s' = add2 (occ_sum (init_state 1 2)) (npz_occ (npz (demo_file ''b'' None 7)))
      \<and> used s' = used (init_state 1 2) @ [file_name (demo_file ''b'' None 7)]
      \<and> solved_cnt s' = solved_cnt (init_state 1 2)"
    by blast
  let ?fs = "[demo_file ''a'' (Some 1) 5, demo_file ''b'' None 7, demo_file ''c'' (Some 0) 9]"
  let ?r = "\<lparr> agg_sums = \<lparr> wait_sum = [[12, 0]], pressure_sum = [[0, 12]],
                        occ_sum = [[12, 12]], makespans = [3, 3], used = [''a'', ''b''],
                        solved_cnt = 1 \<rparr>,
           agg_obstacles = [[0, 0]], num_instances_total = 3, num_instances_used = 2,
           solved_rate = 1 / 3 \<rparr>"
  have "solved_cnt (agg_sums ?r) = length (filter (\<lambda>f. sidecar_solved f = Some 1) ?fs)
      \<and> used (agg_sums ?r) = map file_name (filter (passes True) ?fs)
      \<and> (\<forall>g\<in>set ?fs. sidecar_solved g = None \<longrightarrow> file_name g \<in> set (used (agg_sums ?r)))
      \<and> solved_rate ?r =
          of_nat (length (filter (\<lambda>f. sidecar_solved f = Some 1) ?fs)) / of_nat (length ?fs)
      \<and> solved_rate ?r \<le>
          of_nat (length (filter (\<lambda>f. sidecar_solved f \<noteq> None) ?fs)) / of_nat (length ?fs)"
    using t[THEN conjunct2] demo_main by (rule mp)
  then have "solved_cnt (agg_sums ?r) = length (filter (\<lambda>f. sidecar_solved f = Some 1) ?fs)"
    by (rule conjunct1)
  from demo_main show "\<exists>r. aggregate_main True [demo_file ''a'' (Some 1) 5,
        demo_file ''b'' None 7, demo_file ''c'' (Some 0) 9] = Inr r
        \<and> solved_cnt (agg_sums r) = 1 \<and> used (agg_sums r) = [''a'', ''b'']
        \<and> solved_rate r = 1 / 3"
    by simp
qed


section \<open>Properties of the binary export\<close>

lemma from_le_bytes: "from_le (ucast w) (ucast (drop_bit 8 w)) (ucast (drop_bit 16 w)) (ucast (drop_bit 24 w)) = (w :: 32 word)"
  unfolding from_le_def
proof (rule bit_word_eqI)
  fix n assume "n < LENGTH(32)"
  have a: "n \<ge> 8 \<Longrightarrow> 8 + (n - 8) = n" and b: "n \<ge> 16 \<Longrightarrow> 16 + (n - 16) = n" and c: "n \<ge> 24 \<Longrightarrow> 24 + (n - 24) = n"
    by simp_all
  consider "n < 8" | "8 \<le> n" "n < 16" | "16 \<le> n" "n < 24" | "24 \<le> n" by linarith
  then show "bit (ucast (ucast w :: 8 word) OR push_bit 8 (ucast (ucast (drop_bit 8 w) :: 8 word)) OR
          push_bit 16 (ucast (ucast (drop_bit 16 w) :: 8 word)) OR push_bit 24 (ucast (ucast (drop_bit 24 w):: 8 word)) :: 32 word) n = bit w n"
    using \<open>n < LENGTH(32)\<close> a b c by cases (auto simp: bit_simps)
qed

lemma fromfile_tobytes: "fromfile_f4 (concat (map le_bytes xs)) = xs"
  by (induction xs) (simp_all add: le_bytes_def from_le_bytes)

lemma length_concat_le: "length (concat (map le_bytes xs)) = 4 * length xs"
  by (induction xs) (simp_all add: le_bytes_def)

lemma length_concat_rect: "rect p H W \<Longrightarrow> length (concat p) = H * W"
proof (induction p arbitrary: H)
  case Nil then show ?case by (simp add: rect_def)
next
  case (Cons r p)
  then obtain h where "H = Suc h" "rect p h W" "length r = W" by (cases H) (auto simp: rect_def)
  with Cons.IH[of h] show ?case by simp
qed

lemma reshape_concat: "rect p H W \<Longrightarrow> reshape H W (concat p) = p"
proof (induction p arbitrary: H)
  case Nil then show ?case by (simp add: rect_def)
next
  case (Cons r p)
  then obtain h where "H = Suc h" "rect p h W" "length r = W" by (cases H) (auto simp: rect_def)
  with Cons.IH[of h] show ?case by simp
qed


lemma paths_differ: "bin_path d \<noteq> meta_path d"
  by (simp add: bin_path_def meta_path_def)

lemma rect_shape: "rect p H W \<Longrightarrow> 0 < H \<Longrightarrow> shape_H p = H \<and> shape_W p = W"
  by (cases p) (auto simp: rect_def shape_H_def shape_W_def)

lemma finite_not_nan: "is_finite v \<Longrightarrow> \<not> is_nan v"
  by (simp add: is_finite_def is_nan_def)

lemma allclose0_refl: "(\<forall>r\<in>set p. \<forall>v\<in>set r. is_finite v) \<Longrightarrow> allclose0 p p"
  unfolding allclose0_def list_all2_same
  by (simp add: isclose0_def finite_not_nan)

lemma allclose0_nan:
  assumes "r \<in> set p" "v \<in> set r" "is_nan v"
  shows "\<not> allclose0 p q"
proof
  assume "allclose0 p q"
  then have l: "list_all2 (list_all2 isclose0) p q" by (simp add: allclose0_def)
  from assms(1) obtain i where i: "i < length p" "p ! i = r" by (auto simp: in_set_conv_nth)
  with l have "list_all2 isclose0 r (q ! i)" by (auto simp: list_all2_conv_all_nth)
  moreover from assms(2) obtain j where "j < length r" "r ! j = v" by (auto simp: in_set_conv_nth)
  ultimately have "isclose0 v (q ! i ! j)" by (auto simp: list_all2_conv_all_nth)
  with assms(3) show False by (simp add: isclose0_def)
qed

lemma readback:
  assumes "rect p H W"
  shows "length (tobytes p) = H * W * 4" "length (fromfile_f4 (tobytes p)) = H * W"
    "reshape H W (fromfile_f4 (tobytes p)) = p"
  using assms
  by (simp_all add: tobytes_def fromfile_tobytes length_concat_le length_concat_rect reshape_concat)

text \<open>
  Claim C5. For every \<open>float32\<close> matrix of shape \<open>H\<close> by \<open>W\<close>, the bytes written have
  length \<open>H * W * 4\<close>, and reading them back as little-endian \<open>float32\<close> and reshaping
  gives the matrix written, bit for bit. When moreover the matrix has at least one
  element, all its values are finite and the map header (if there is one) agrees with
  its shape, \<open>export_one\<close> passes its own verification and leaves exactly these bytes in
  \<open>heatmap.f32.bin\<close>, next to the sidecar.
\<close>

theorem export_roundtrip:
  assumes "rect p H W"
  shows "length (tobytes p) = H * W * 4
    \<and> reshape H W (fromfile_f4 (tobytes p)) = p
    \<and> (0 < H \<and> 0 < W \<and> (\<forall>r\<in>set p. \<forall>v\<in>set r. is_finite v)
         \<and> (map_dims = None \<or> map_dims = Some (int H, int W)) \<longrightarrow>
        export_one fs (Matrix p) map_dims out_dir meta_json =
          (fs(bin_path out_dir \<mapsto> tobytes p, meta_path out_dir \<mapsto> meta_json), Inr ()))"
proof (intro conjI impI)
  show "length (tobytes p) = H * W * 4" using assms by (rule readback)
  show "reshape H W (fromfile_f4 (tobytes p)) = p" using assms by (rule readback)
next
  assume a: "0 < H \<and> 0 < W \<and> (\<forall>r\<in>set p. \<forall>v\<in>set r. is_finite v)
         \<and> (map_dims = None \<or> map_dims = Some (int H, int W))"
  then have sh: "shape_H p = H" "shape_W p = W" using rect_shape[OF assms] by simp_all
  have cl: "allclose0 p (reshape H W (fromfile_f4 (tobytes p)))"
    using a by (simp add: readback(3)[OF assms] allclose0_refl)
  from a have md: "(case map_dims of None \<Rightarrow> False | Some (mh, mw) \<Rightarrow> mh \<noteq> int H \<or> mw \<noteq> int W) = False"
    by auto
  show "export_one fs (Matrix p) map_dims out_dir meta_json =
          (fs(bin_path out_dir \<mapsto> tobytes p, meta_path out_dir \<mapsto> meta_json), Inr ())"
    using a cl readback(2)[OF assms] paths_differ[of out_dir]
    by (simp add: export_one_def sh md Let_def)
qed

text \<open>
  Claim C6, as the code has it. Whenever \<open>export_one\<close> ends with the RuntimeError of
  its read-back verification, the binary and the sidecar it wrote before verifying are
  both still at their destination paths; and the verification does fail, for instance,
  for any non-empty matrix that holds a NaN.
\<close>

theorem failed_verification_leaves_files:
  "(export_one fs npy map_dims out_dir meta_json = (fs', Inl RuntimeError) \<longrightarrow>
      (\<exists>p. npy = Matrix p \<and> fs' (bin_path out_dir) = Some (tobytes p)
         \<and> fs' (meta_path out_dir) = Some meta_json))
   \<and> (rect p H W \<and> 0 < H \<and> 0 < W \<and> (\<exists>r\<in>set p. \<exists>v\<in>set r. is_nan v)
        \<and> (map_dims = None \<or> map_dims = Some (int H, int W)) \<longrightarrow>
      export_one fs (Matrix p) map_dims out_dir meta_json =
        (fs(bin_path out_dir \<mapsto> tobytes p, meta_path out_dir \<mapsto> meta_json), Inl RuntimeError))"
proof (intro conjI impI)
  assume "export_one fs npy map_dims out_dir meta_json = (fs', Inl RuntimeError)"
  then show "\<exists>p. npy = Matrix p \<and> fs' (bin_path out_dir) = Some (tobytes p)
         \<and> fs' (meta_path out_dir) = Some meta_json"
    using paths_differ[of out_dir]
    by (cases npy) (auto simp: export_one_def Let_def split: if_splits option.splits)
next
  assume a: "rect p H W \<and> 0 < H \<and> 0 < W \<and> (\<exists>r\<in>set p. \<exists>v\<in>set r. is_nan v)
        \<and> (map_dims = None \<or> map_dims = Some (int H, int W))"
  then have r: "rect p H W" by simp
  from a have sh: "shape_H p = H" "shape_W p = W" using rect_shape[OF r] by simp_all
  from a have ncl: "\<not> allclose0 p (reshape H W (fromfile_f4 (tobytes p)))"
    using allclose0_nan by blast
  from a have md: "(case map_dims of None \<Rightarrow> False | Some (mh, mw) \<Rightarrow> mh \<noteq> int H \<or> mw \<noteq> int W) = False"
    by auto
  show "export_one fs (Matrix p) map_dims out_dir meta_json =
        (fs(bin_path out_dir \<mapsto> tobytes p, meta_path out_dir \<mapsto> meta_json), Inl RuntimeError)"
    using a ncl readback(2)[OF r] paths_differ[of out_dir]
    by (simp add: export_one_def sh md Let_def)
qed


lemma demo_bytes: "tobytes [[0x3F800000, 0x40000000]] = [0, 0, 128, 63, 0, 0, 0, 64]"
  by (simp add: tobytes_def le_bytes_def)

lemma nan_bytes: "tobytes [[0x7FC00000]] = [0, 0, 192, 127]"
  by (simp add: tobytes_def le_bytes_def)

theorem export_roundtrip_witness:
  "rect [[0x3F800000, 0x40000000 :: f32]] 1 2
   \<and> length (tobytes [[0x3F800000, 0x40000000]]) = 1 * 2 * 4
   \<and> reshape 1 2 (fromfile_f4 (tobytes [[0x3F800000, 0x40000000]])) = [[0x3F800000, 0x40000000]]
   \<and> export_one Map.empty (Matrix [[0x3F800000, 0x40000000]]) (Some (1, 2)) ''out'' [] =
        (Map.empty(bin_path ''out'' \<mapsto> [0, 0, 128, 63, 0, 0, 0, 64], meta_path ''out'' \<mapsto> []),
         Inr ())"
proof -
  have r: "rect [[0x3F800000, 0x40000000 :: f32]] 1 2"
    by (simp add: rect_def)
  have f: "(0::nat) < 1 \<and> (0::nat) < 2
      \<and> (\<forall>r\<in>set [[0x3F800000, 0x40000000 :: f32]]. \<forall>v\<in>set r. is_finite v)
      \<and> (Some (1, 2) = None \<or> Some (1::int, 2::int) = Some (int 1, int 2))"
    by (simp add: is_finite_def)
  from export_roundtrip[OF r, of "Some (1, 2)" Map.empty "''out''" "[]"] f r
  show ?thesis
    by (simp only: demo_bytes) simp
qed

theorem failed_verification_leaves_files_witness:
  "export_one Map.empty (Matrix [[0x7FC00000]]) None ''out'' [] =
     (Map.empty(bin_path ''out'' \<mapsto> tobytes [[0x7FC00000]], meta_path ''out'' \<mapsto> []),
      Inl RuntimeError)
   \<and> (\<exists>p. Matrix [[0x7FC00000]] = Matrix p
        \<and> (Map.empty(bin_path ''out'' \<mapsto> tobytes [[0x7FC00000]], meta_path ''out'' \<mapsto> []))
             (bin_path ''out'') = Some (tobytes p)
        \<and> (Map.empty(bin_path ''out'' \<mapsto> tobytes [[0x7FC00000]], meta_path ''out'' \<mapsto> []))
             (meta_path ''out'') = Some [])"
proof -
  note t = failed_verification_leaves_files
    [of Map.empty "Matrix [[0x7FC00000]]" None "''out''" "[]"
        "Map.empty(bin_path ''out'' \<mapsto> tobytes [[0x7FC00000]], meta_path ''out'' \<mapsto> [])"
        "[[0x7FC00000]]" 1 1]
  have h: "rect [[0x7FC00000 :: f32]] 1 1 \<and> (0::nat) < 1 \<and> (0::nat) < 1
      \<and> (\<exists>r\<in>set [[0x7FC00000 :: f32]]. \<exists>v\<in>set r. is_nan v)
      \<and> (None = None \<or> None = Some (int 1, int 1))"
    by (simp add: rect_def is_nan_def)
  have e: "export_one Map.empty (Matrix [[0x7FC00000]]) None ''out'' [] =
     (Map.empty(bin_path ''out'' \<mapsto> tobytes [[0x7FC00000]], meta_path ''out'' \<mapsto> []),
      Inl RuntimeError)"
    using t[THEN conjunct2] h by (rule mp)
  have "\<exists>p. Matrix [[0x7FC00000]] = Matrix p
        \<and> (Map.empty(bin_path ''out'' \<mapsto> tobytes [[0x7FC00000]], meta_path ''out'' \<mapsto> []))
             (bin_path ''out'') = Some (tobytes p)
        \<and> (Map.empty(bin_path ''out'' \<mapsto> tobytes [[0x7FC00000]], meta_path ''out'' \<mapsto> []))
             (meta_path ''out'') = Some []"
    using t[THEN conjunct1] e by (rule mp)
  with e show ?thesis by (rule conjI)
qed

text \<open>
  The claim as written fails: exporting the 1 by 1 matrix holding a NaN raises
  RuntimeError, and \<open>heatmap.f32.bin\<close> and \<open>heatmap.meta.json\<close> remain in the output
  directory.
\<close>

theorem artifact_left_after_failure_counterexample:
  "snd (export_one Map.empty (Matrix [[0x7FC00000]]) None ''out'' []) = Inl RuntimeError
   \<and> fst (export_one Map.empty (Matrix [[0x7FC00000]]) None ''out'' []) (bin_path ''out'') =
       Some [0, 0, 192, 127]
   \<and> fst (export_one Map.empty (Matrix [[0x7FC00000]]) None ''out'' []) (meta_path ''out'') =
       Some []"
  by (simp add: export_one_def shape_H_def shape_W_def nan_bytes bin_path_def meta_path_def
      allclose0_def isclose0_def is_nan_def from_le_def)


section \<open>Properties of the distance field\<close>

lemma get2_rect: "rect a H W \<Longrightarrow> inb H W c \<Longrightarrow> get2 a (snd c) (fst c) = Inr (cell_at a c)"
  by (simp add: get2_def rect_def inb_def cell_at_def)

lemma rect_set2: "rect a H W \<Longrightarrow> rect (set2 a y x v) H W"
proof (cases "y < length a")
  case True
  assume "rect a H W"
  with True show ?thesis
    by (auto simp: rect_def set2_def dest!: set_update_subset_insert[THEN subsetD])
next
  case False
  assume "rect a H W"
  with False show ?thesis by (simp add: set2_def list_update_beyond)
qed

lemma cell_at_set2:
  "rect a H W \<Longrightarrow> inb H W c \<Longrightarrow> inb H W c' \<Longrightarrow>
   cell_at (set2 a (snd c) (fst c) v) c' = (if c' = c then v else cell_at a c')"
  by (cases c; cases c') (auto simp: rect_def inb_def cell_at_def set2_def nth_list_update)

lemma rect_full: "rect (full H W v) H W"
  by (simp add: rect_def full_def)

lemma cell_at_full: "inb H W c \<Longrightarrow> cell_at (full H W v) c = v"
  by (simp add: inb_def cell_at_def full_def)

lemma rect_shape_W: "rect a H W \<Longrightarrow> 0 < H \<Longrightarrow> shape_W a = W"
  by (cases a) (auto simp: rect_def shape_W_def)

lemma rect_shape_H: "rect a H W \<Longrightarrow> shape_H a = H"
  by (simp add: rect_def shape_H_def)


lemma relax_eval:
  assumes "rect obs H W" "rect dmap H W" "inb H W n"
  shows "relax obs (dmap, q) (fst n) (snd n) d =
    Inr (if \<not> cell_at obs n \<and> d < cell_at dmap n
         then (set2 dmap (snd n) (fst n) d, q @ [n]) else (dmap, q))"
  using assms by (simp add: relax_def get2_rect)

lemma field_okD:
  assumes "field_ok obs H W g dmap"
  shows "rect dmap H W" "free obs H W g" "cell_at dmap g = 0"
    and "\<And>c. inb H W c \<Longrightarrow> cell_at dmap c \<le> INF_VAL"
    and "\<And>c. inb H W c \<Longrightarrow> cell_at dmap c < INF_VAL \<Longrightarrow> free obs H W c"
    and "\<And>c. inb H W c \<Longrightarrow> cell_at dmap c < INF_VAL \<Longrightarrow> c \<noteq> g \<Longrightarrow>
           \<exists>n. adj n c \<and> inb H W n \<and> cell_at dmap n + 1 = cell_at dmap c"
  using assms unfolding field_ok_def by blast+

lemma field_ok_set2:
  assumes f: "field_ok obs H W g dmap"
    and n: "free obs H W n" "INF_VAL \<le> cell_at dmap n"
    and c0: "adj c0 n" "inb H W c0" "cell_at dmap c0 + 1 = d" "d < INF_VAL"
  shows "field_ok obs H W g (set2 dmap (snd n) (fst n) d)"
proof -
  let ?d' = "set2 dmap (snd n) (fst n) d"
  note fd = field_okD[OF f]
  from n(1) have nb: "inb H W n" by (simp add: free_def)
  have at: "\<And>c. inb H W c \<Longrightarrow> cell_at ?d' c = (if c = n then d else cell_at dmap c)"
    using fd(1) nb by (rule cell_at_set2)
  have gb: "inb H W g" using fd(2) by (simp add: free_def)
  have gn: "g \<noteq> n" using n(2) fd(3) by (auto simp: INF_VAL_def)
  have c0n: "c0 \<noteq> n" using c0(3,4) n(2) by auto
  show ?thesis unfolding field_ok_def
  proof (intro conjI allI impI)
    show "rect ?d' H W" using fd(1) by (rule rect_set2)
    show "free obs H W g" by (rule fd(2))
    show "cell_at ?d' g = 0" using fd(3) gn gb by (simp add: at)
  next
    fix c assume "inb H W c"
    then show "cell_at ?d' c \<le> INF_VAL"
      using fd(4)[of c] c0(4) by (simp add: at)
  next
    fix c assume "inb H W c \<and> cell_at ?d' c < INF_VAL"
    then have c: "inb H W c" "cell_at ?d' c < INF_VAL" by simp_all
    show "free obs H W c"
      using c fd(5)[of c] n(1) by (cases "c = n") (simp_all add: at)
  next
    fix c assume "inb H W c \<and> cell_at ?d' c < INF_VAL" and cg: "c \<noteq> g"
    then have c: "inb H W c" "cell_at ?d' c < INF_VAL" by simp_all
    show "\<exists>m. adj m c \<and> inb H W m \<and> cell_at ?d' m + 1 = cell_at ?d' c"
    proof (cases "c = n")
      case True
      then show ?thesis using c0 c0n by (intro exI[of _ c0]) (simp add: at nb)
    next
      case False
      with c have fin: "cell_at dmap c < INF_VAL" by (simp add: at)
      with c cg fd(6)[of c] obtain m where
        m: "adj m c" "inb H W m" "cell_at dmap m + 1 = cell_at dmap c"
        by blast
      with fin n(2) have "m \<noteq> n" by auto
      with m False c show ?thesis by (intro exI[of _ m]) (simp add: at)
    qed
  qed
qed


lemma bfs_midD:
  assumes "bfs_mid obs H W g c0 d D dmap q"
  shows "field_ok obs H W g dmap" "free obs H W c0" "cell_at dmap c0 + 1 = d" "d \<le> INF_VAL"
    and "\<And>c. c \<in> set q \<Longrightarrow> free obs H W c \<and> cell_at dmap c < INF_VAL
            \<and> cell_at dmap c0 \<le> cell_at dmap c \<and> cell_at dmap c \<le> d"
    and "sorted (map (cell_at dmap) q)"
    and "\<And>c. inb H W c \<Longrightarrow> cell_at dmap c < INF_VAL \<Longrightarrow> c \<notin> set q \<Longrightarrow> c \<noteq> c0 \<Longrightarrow>
            cell_at dmap c \<le> cell_at dmap c0
          \<and> (\<forall>n. adj c n \<and> free obs H W n \<longrightarrow> cell_at dmap n \<le> cell_at dmap c + 1)"
    and "\<And>n. n \<in> D \<Longrightarrow> free obs H W n \<Longrightarrow> cell_at dmap n \<le> d"
  using assms unfolding bfs_mid_def by blast+

lemma relax_mid:
  assumes o: "rect obs H W"
    and m: "bfs_mid obs H W g c0 d D dmap q"
    and n: "adj c0 n" "inb H W n"
  shows "\<exists>dmap' q'. relax obs (dmap, q) (fst n) (snd n) d = Inr (dmap', q')
           \<and> bfs_mid obs H W g c0 d (insert n D) dmap' q'"
proof -
  note md = bfs_midD[OF m]
  note fd = field_okD[OF md(1)]
  have ev: "relax obs (dmap, q) (fst n) (snd n) d =
      Inr (if \<not> cell_at obs n \<and> d < cell_at dmap n
           then (set2 dmap (snd n) (fst n) d, q @ [n]) else (dmap, q))"
    using o fd(1) n(2) by (rule relax_eval)
  have c0b: "inb H W c0" using md(2) by (simp add: free_def)
  show ?thesis
  proof (cases "\<not> cell_at obs n \<and> d < cell_at dmap n")
    case False
    have "bfs_mid obs H W g c0 d (insert n D) dmap q"
      unfolding bfs_mid_def
    proof (intro conjI ballI allI impI)
      fix k assume "k \<in> insert n D" "free obs H W k"
      then show "cell_at dmap k \<le> d"
        using False md(8)[of k] by (auto simp: free_def)
    qed (use md in \<open>blast+\<close>)
    with ev False show ?thesis by simp
  next
    case True
    let ?d' = "set2 dmap (snd n) (fst n) d"
    from True n(2) have fn: "free obs H W n" by (simp add: free_def)
    have big: "INF_VAL \<le> cell_at dmap n"
    proof (rule ccontr)
      assume "\<not> INF_VAL \<le> cell_at dmap n"
      then have fin: "cell_at dmap n < INF_VAL" by simp
      have "cell_at dmap n \<le> d"
      proof (cases "n \<in> set q")
        case True
        then show ?thesis using md(5)[of n] by simp
      next
        case nq: False
        show ?thesis
        proof (cases "n = c0")
          case True
          then show ?thesis using md(3) by simp
        next
          case False
          with md(7)[OF n(2) fin nq] md(3) show ?thesis by simp
        qed
      qed
      with True show False by simp
    qed
    have dfin: "d < INF_VAL" using True big fd(4)[OF n(2)] by simp
    have f': "field_ok obs H W g ?d'"
      using md(1) fn big n(1) c0b md(3) dfin by (rule field_ok_set2)
    have at: "\<And>c. inb H W c \<Longrightarrow> cell_at ?d' c = (if c = n then d else cell_at dmap c)"
      using fd(1) n(2) by (rule cell_at_set2)
    have c0n: "c0 \<noteq> n" using md(3) big dfin by auto
    have atc0: "cell_at ?d' c0 = cell_at dmap c0" using c0b c0n by (simp add: at)
    have qn: "\<And>c. c \<in> set q \<Longrightarrow> c \<noteq> n \<and> inb H W c \<and> cell_at ?d' c = cell_at dmap c"
    proof -
      fix c assume "c \<in> set q"
      from md(5)[OF this] have "free obs H W c" "cell_at dmap c < INF_VAL" by simp_all
      then have "inb H W c" "c \<noteq> n" using big by (auto simp: free_def)
      then show "c \<noteq> n \<and> inb H W c \<and> cell_at ?d' c = cell_at dmap c" by (simp add: at)
    qed
    have mapq: "map (cell_at ?d') q = map (cell_at dmap) q"
      using qn by simp
    have p1: "\<forall>c\<in>set (q @ [n]). free obs H W c \<and> cell_at ?d' c < INF_VAL
          \<and> cell_at ?d' c0 \<le> cell_at ?d' c \<and> cell_at ?d' c \<le> d"
    proof
      fix c assume "c \<in> set (q @ [n])"
      then consider "c \<in> set q" | "c = n" by auto
      then show "free obs H W c \<and> cell_at ?d' c < INF_VAL
          \<and> cell_at ?d' c0 \<le> cell_at ?d' c \<and> cell_at ?d' c \<le> d"
      proof cases
        case 1
        from md(5)[OF 1] qn[OF 1] atc0 show ?thesis by simp
      next
        case 2
        with fn dfin atc0 md(3) n(2) show ?thesis by (simp add: at)
      qed
    qed
    have "\<forall>v\<in>set (map (cell_at dmap) q). v \<le> d"
      using md(5) by auto
    then have p2: "sorted (map (cell_at ?d') (q @ [n]))"
      using md(6) n(2) by (simp add: mapq sorted_append at)
    have p3: "\<forall>c. inb H W c \<and> cell_at ?d' c < INF_VAL \<and> c \<notin> set (q @ [n]) \<and> c \<noteq> c0 \<longrightarrow>
          cell_at ?d' c \<le> cell_at ?d' c0
        \<and> (\<forall>k. adj c k \<and> free obs H W k \<longrightarrow> cell_at ?d' k \<le> cell_at ?d' c + 1)"
    proof (intro allI impI)
      fix c assume "inb H W c \<and> cell_at ?d' c < INF_VAL \<and> c \<notin> set (q @ [n]) \<and> c \<noteq> c0"
      then have c: "inb H W c" "cell_at ?d' c < INF_VAL" "c \<notin> set q" "c \<noteq> n" "c \<noteq> c0"
        by simp_all
      then have cc: "cell_at ?d' c = cell_at dmap c" by (simp add: at)
      with c have "cell_at dmap c < INF_VAL" by simp
      note cl = md(7)[OF c(1) this c(3) c(5)]
      have a: "cell_at ?d' c \<le> cell_at ?d' c0" using cl cc atc0 by simp
      have b: "\<forall>k. adj c k \<and> free obs H W k \<longrightarrow> cell_at ?d' k \<le> cell_at ?d' c + 1"
      proof (intro allI impI)
        fix k assume k: "adj c k \<and> free obs H W k"
        then have kb: "inb H W k" by (simp add: free_def)
        from cl k have "cell_at dmap k \<le> cell_at dmap c + 1" by blast
        moreover have "cell_at ?d' k \<le> cell_at dmap k"
          using True kb by (simp add: at)
        ultimately show "cell_at ?d' k \<le> cell_at ?d' c + 1" using cc by simp
      qed
      from a b show "cell_at ?d' c \<le> cell_at ?d' c0
        \<and> (\<forall>k. adj c k \<and> free obs H W k \<longrightarrow> cell_at ?d' k \<le> cell_at ?d' c + 1)" ..
    qed
    have p4: "\<forall>k\<in>insert n D. free obs H W k \<longrightarrow> cell_at ?d' k \<le> d"
    proof (intro ballI impI)
      fix k assume k: "k \<in> insert n D" "free obs H W k"
      then have kb: "inb H W k" by (simp add: free_def)
      show "cell_at ?d' k \<le> d"
      proof (cases "k = n")
        case True
        then show ?thesis using kb by (simp add: at)
      next
        case False
        with k md(8)[of k] kb show ?thesis by (simp add: at)
      qed
    qed
    have p0: "cell_at ?d' c0 + 1 = d" using md(3) atc0 by simp
    have "bfs_mid obs H W g c0 d (insert n D) ?d' (q @ [n])"
      unfolding bfs_mid_def using f' md(2) p0 md(4) p1 p2 p3 p4 by blast
    with ev True show ?thesis by simp
  qed
qed


lemma bfs_invD:
  assumes "bfs_inv obs H W g dmap q"
  shows "field_ok obs H W g dmap"
    and "\<And>c. c \<in> set q \<Longrightarrow> free obs H W c \<and> cell_at dmap c < INF_VAL"
    and "sorted (map (cell_at dmap) q)"
    and "q \<noteq> [] \<Longrightarrow> cell_at dmap (last q) \<le> cell_at dmap (hd q) + 1"
    and "\<And>c. inb H W c \<Longrightarrow> cell_at dmap c < INF_VAL \<Longrightarrow> c \<notin> set q \<Longrightarrow>
            (\<forall>c'\<in>set q. cell_at dmap c \<le> cell_at dmap c')
          \<and> (\<forall>n. adj c n \<and> free obs H W n \<longrightarrow> cell_at dmap n \<le> cell_at dmap c + 1)"
  using assms unfolding bfs_inv_def by blast+

lemma sorted_le_last: "sorted xs \<Longrightarrow> x \<in> set xs \<Longrightarrow> x \<le> last xs"
  by (induction xs) auto

lemma inv_to_mid:
  assumes "bfs_inv obs H W g dmap (c0 # q)"
  shows "bfs_mid obs H W g c0 (cell_at dmap c0 + 1) {} dmap q"
proof -
  note iv = bfs_invD[OF assms]
  from iv(2)[of c0] have c0: "free obs H W c0" "cell_at dmap c0 < INF_VAL" by simp_all
  from iv(3) have so: "sorted (map (cell_at dmap) q)" and lo: "\<forall>c\<in>set q. cell_at dmap c0 \<le> cell_at dmap c"
    by simp_all
  have hi: "\<forall>c\<in>set q. cell_at dmap c \<le> cell_at dmap c0 + 1"
  proof
    fix c assume c: "c \<in> set q"
    then have ne: "q \<noteq> []" by auto
    from c have "cell_at dmap c \<in> set (map (cell_at dmap) q)" by simp
    with so have "cell_at dmap c \<le> last (map (cell_at dmap) q)"
      by (rule sorted_le_last)
    also have "\<dots> = cell_at dmap (last q)" using ne by (simp add: last_map)
    also have "\<dots> \<le> cell_at dmap c0 + 1" using iv(4) ne by simp
    finally show "cell_at dmap c \<le> cell_at dmap c0 + 1" .
  qed
  have p1: "\<forall>c\<in>set q. free obs H W c \<and> cell_at dmap c < INF_VAL
          \<and> cell_at dmap c0 \<le> cell_at dmap c \<and> cell_at dmap c \<le> cell_at dmap c0 + 1"
    using iv(2) lo hi by simp
  have p3: "\<forall>c. inb H W c \<and> cell_at dmap c < INF_VAL \<and> c \<notin> set q \<and> c \<noteq> c0 \<longrightarrow>
          cell_at dmap c \<le> cell_at dmap c0
        \<and> (\<forall>n. adj c n \<and> free obs H W n \<longrightarrow> cell_at dmap n \<le> cell_at dmap c + 1)"
  proof (intro allI impI)
    fix c assume "inb H W c \<and> cell_at dmap c < INF_VAL \<and> c \<notin> set q \<and> c \<noteq> c0"
    then have "inb H W c" "cell_at dmap c < INF_VAL" "c \<notin> set (c0 # q)" by simp_all
    from iv(5)[OF this] show "cell_at dmap c \<le> cell_at dmap c0
        \<and> (\<forall>n. adj c n \<and> free obs H W n \<longrightarrow> cell_at dmap n \<le> cell_at dmap c + 1)"
      by simp
  qed
  have p4: "cell_at dmap c0 + 1 \<le> INF_VAL" using c0(2) by simp
  show ?thesis
    unfolding bfs_mid_def using iv(1) c0(1) p4 p1 so p3 by blast
qed

lemma mid_to_inv:
  assumes m: "bfs_mid obs H W g c0 d D dmap q"
    and all: "\<And>k. adj c0 k \<Longrightarrow> inb H W k \<Longrightarrow> k \<in> D"
  shows "bfs_inv obs H W g dmap q"
proof -
  note md = bfs_midD[OF m]
  have c0b: "inb H W c0" using md(2) by (simp add: free_def)
  have p1: "\<forall>c\<in>set q. free obs H W c \<and> cell_at dmap c < INF_VAL"
    using md(5) by blast
  have p2: "q \<noteq> [] \<longrightarrow> cell_at dmap (last q) \<le> cell_at dmap (hd q) + 1"
  proof
    assume ne: "q \<noteq> []"
    then have "last q \<in> set q" "hd q \<in> set q" by simp_all
    from md(5)[OF this(1)] md(5)[OF this(2)] md(3)
    show "cell_at dmap (last q) \<le> cell_at dmap (hd q) + 1" by simp
  qed
  have p3: "\<forall>c. inb H W c \<and> cell_at dmap c < INF_VAL \<and> c \<notin> set q \<longrightarrow>
          (\<forall>c'\<in>set q. cell_at dmap c \<le> cell_at dmap c')
        \<and> (\<forall>n. adj c n \<and> free obs H W n \<longrightarrow> cell_at dmap n \<le> cell_at dmap c + 1)"
  proof (intro allI impI)
    fix c assume "inb H W c \<and> cell_at dmap c < INF_VAL \<and> c \<notin> set q"
    then have c: "inb H W c" "cell_at dmap c < INF_VAL" "c \<notin> set q" by simp_all
    show "(\<forall>c'\<in>set q. cell_at dmap c \<le> cell_at dmap c')
        \<and> (\<forall>n. adj c n \<and> free obs H W n \<longrightarrow> cell_at dmap n \<le> cell_at dmap c + 1)"
    proof (cases "c = c0")
      case True
      have a: "\<forall>c'\<in>set q. cell_at dmap c \<le> cell_at dmap c'"
        using md(5) True by blast
      have b: "\<forall>n. adj c n \<and> free obs H W n \<longrightarrow> cell_at dmap n \<le> cell_at dmap c + 1"
      proof (intro allI impI)
        fix k assume k: "adj c k \<and> free obs H W k"
        then have "k \<in> D" using all[of k] True by (simp add: free_def)
        with md(8)[of k] k md(3) True show "cell_at dmap k \<le> cell_at dmap c + 1" by simp
      qed
      from a b show ?thesis ..
    next
      case False
      note cl = md(7)[OF c False]
      have "\<forall>c'\<in>set q. cell_at dmap c \<le> cell_at dmap c'"
      proof
        fix c' assume "c' \<in> set q"
        from md(5)[OF this] cl show "cell_at dmap c \<le> cell_at dmap c'" by simp
      qed
      with cl show ?thesis by blast
    qed
  qed
  show ?thesis
    unfolding bfs_inv_def using md(1) p1 md(6) p2 p3 by blast
qed


lemma guarded_relax_mid:
  assumes "rect obs H W" "bfs_mid obs H W g c0 d D dmap q"
    and "c \<Longrightarrow> adj c0 n \<and> inb H W n"
  shows "\<exists>dmap' q'.
      (if c then relax obs (dmap, q) (fst n) (snd n) d else Inr (dmap, q)) = Inr (dmap', q')
    \<and> bfs_mid obs H W g c0 d (if c then insert n D else D) dmap' q'"
proof (cases c)
  case True
  with assms(3) have "adj c0 n" "inb H W n" by simp_all
  from relax_mid[OF assms(1,2) this] True show ?thesis by simp
next
  case False
  with assms(2) show ?thesis by simp
qed

lemma bfs_step_inv:
  assumes o: "rect obs H W" and iv: "bfs_inv obs H W g dmap ((x, y) # q)"
  shows "\<exists>dmap' q'. bfs_step obs dmap x y q = Inr (dmap', q') \<and> bfs_inv obs H W g dmap' q'"
proof -
  let ?d = "cell_at dmap (x, y) + 1"
  note m0 = inv_to_mid[OF iv]
  have c0b: "inb H W (x, y)" using bfs_midD(2)[OF m0] by (simp add: free_def)
  then have xy: "x < W" "y < H" by (simp_all add: inb_def)
  have sh: "shape_H obs = H" "shape_W obs = W"
    using o xy by (simp_all add: rect_shape_H rect_shape_W)
  have rd: "rect dmap H W" using field_okD(1)[OF bfs_midD(1)[OF m0]] .
  have g: "get2 dmap y x = Inr (cell_at dmap (x, y))"
    using get2_rect[OF rd c0b] by simp
  have a1: "0 < x \<Longrightarrow> adj (x, y) (x - 1, y) \<and> inb H W (x - 1, y)"
    and a2: "x + 1 < W \<Longrightarrow> adj (x, y) (x + 1, y) \<and> inb H W (x + 1, y)"
    and a3: "0 < y \<Longrightarrow> adj (x, y) (x, y - 1) \<and> inb H W (x, y - 1)"
    and a4: "y + 1 < H \<Longrightarrow> adj (x, y) (x, y + 1) \<and> inb H W (x, y + 1)"
    using xy by (auto simp: adj_def inb_def)
  let ?D1 = "if 0 < x then insert (x - 1, y) {} else {}"
  from guarded_relax_mid[OF o m0 a1]
  obtain d1 q1 where
    r1: "(if 0 < x then relax obs (dmap, q) (x - 1) y ?d else Inr (dmap, q)) = Inr (d1, q1)"
    and m1: "bfs_mid obs H W g (x, y) ?d ?D1 d1 q1"
    unfolding fst_conv snd_conv by blast
  let ?D2 = "if x + 1 < W then insert (x + 1, y) ?D1 else ?D1"
  from guarded_relax_mid[OF o m1 a2]
  obtain d2 q2 where
    r2: "(if x + 1 < W then relax obs (d1, q1) (x + 1) y ?d else Inr (d1, q1)) = Inr (d2, q2)"
    and m2: "bfs_mid obs H W g (x, y) ?d ?D2 d2 q2"
    unfolding fst_conv snd_conv by blast
  let ?D3 = "if 0 < y then insert (x, y - 1) ?D2 else ?D2"
  from guarded_relax_mid[OF o m2 a3]
  obtain d3 q3 where
    r3: "(if 0 < y then relax obs (d2, q2) x (y - 1) ?d else Inr (d2, q2)) = Inr (d3, q3)"
    and m3: "bfs_mid obs H W g (x, y) ?d ?D3 d3 q3"
    unfolding fst_conv snd_conv by blast
  let ?D4 = "if y + 1 < H then insert (x, y + 1) ?D3 else ?D3"
  from guarded_relax_mid[OF o m3 a4]
  obtain d4 q4 where
    r4: "(if y + 1 < H then relax obs (d3, q3) x (y + 1) ?d else Inr (d3, q3)) = Inr (d4, q4)"
    and m4: "bfs_mid obs H W g (x, y) ?d ?D4 d4 q4"
    unfolding fst_conv snd_conv by blast
  have st: "bfs_step obs dmap x y q = Inr (d4, q4)"
    unfolding bfs_step_def Let_def g sh using r1 r2 r3 r4 by simp
  have all: "\<And>k. adj (x, y) k \<Longrightarrow> inb H W k \<Longrightarrow> k \<in> ?D4"
  proof -
    fix k :: cell assume k: "adj (x, y) k" "inb H W k"
    obtain kx ky where kk: "k = (kx, ky)" by (cases k)
    from k show "k \<in> ?D4" unfolding kk adj_def inb_def by auto
  qed
  from mid_to_inv[OF m4 all] st show ?thesis by blast
qed

lemma bfs_loop_inv:
  "rect obs H W \<Longrightarrow> bfs_inv obs H W g dmap q \<Longrightarrow>
    \<exists>d'. bfs_loop obs dmap q = Inr d' \<and> bfs_inv obs H W g d' []"
proof (induction obs dmap q rule: bfs_loop.induct)
  case (1 obs dmap)
  then show ?case by simp
next
  case (2 obs dmap x y q)
  from bfs_step_inv[OF 2(2,3)] obtain dmap' q' where
    st: "bfs_step obs dmap x y q = Inr (dmap', q')" and iv: "bfs_inv obs H W g dmap' q'"
    by blast
  from 2(1)[OF st refl 2(2) iv] st show ?case by simp
qed


lemma finite_connected:
  assumes f: "field_ok obs H W g d"
  shows "inb H W c \<Longrightarrow> cell_at d c < INF_VAL \<Longrightarrow> connected obs H W g c"
proof (induction "cell_at d c" arbitrary: c rule: less_induct)
  case less
  note fd = field_okD[OF f]
  show ?case
  proof (cases "c = g")
    case True
    then show ?thesis using fd(2) by (simp add: connected.start)
  next
    case False
    from fd(6)[OF less.prems False] obtain m where
      m: "adj m c" "inb H W m" "cell_at d m + 1 = cell_at d c" by blast
    then have "cell_at d m < cell_at d c" by simp
    moreover from this less.prems(2) have "cell_at d m < INF_VAL" by simp
    ultimately have cm: "connected obs H W g m" using m(2) by (intro less.hyps)
    have "free obs H W c" using fd(5)[OF less.prems] .
    with cm m(1) show ?thesis by (rule connected.step)
  qed
qed

lemma init_inv:
  assumes o: "rect obs H W" and g: "free obs H W g"
  shows "bfs_inv obs H W g (set2 (full H W INF_VAL) (snd g) (fst g) 0) [g]"
proof -
  let ?d = "set2 (full H W INF_VAL) (snd g) (fst g) 0"
  have gb: "inb H W g" using g by (simp add: free_def)
  have at: "\<And>c. inb H W c \<Longrightarrow> cell_at ?d c = (if c = g then 0 else INF_VAL)"
    using cell_at_set2[OF rect_full gb, of _ INF_VAL 0] by (simp add: cell_at_full)
  have fin: "\<And>c. inb H W c \<Longrightarrow> cell_at ?d c < INF_VAL \<Longrightarrow> c = g"
    by (simp add: at split: if_splits)
  have f: "field_ok obs H W g ?d"
    unfolding field_ok_def
  proof (intro conjI allI impI)
    show "rect ?d H W" using rect_full by (rule rect_set2)
    show "free obs H W g" by (rule g)
    show "cell_at ?d g = 0" using gb by (simp add: at)
  next
    fix c assume "inb H W c"
    then show "cell_at ?d c \<le> INF_VAL" by (simp add: at)
  next
    fix c assume "inb H W c \<and> cell_at ?d c < INF_VAL"
    then have "c = g" using fin by blast
    then show "free obs H W c" using g by simp
  next
    fix c assume "inb H W c \<and> cell_at ?d c < INF_VAL" "c \<noteq> g"
    then show "\<exists>n. adj n c \<and> inb H W n \<and> cell_at ?d n + 1 = cell_at ?d c"
      using fin by blast
  qed
  have g0: "cell_at ?d g = 0" using gb by (simp add: at)
  have p1: "\<forall>c\<in>set [g]. free obs H W c \<and> cell_at ?d c < INF_VAL"
    using g g0 by (simp add: INF_VAL_def)
  have p3: "\<forall>c. inb H W c \<and> cell_at ?d c < INF_VAL \<and> c \<notin> set [g] \<longrightarrow>
          (\<forall>c'\<in>set [g]. cell_at ?d c \<le> cell_at ?d c')
        \<and> (\<forall>n. adj c n \<and> free obs H W n \<longrightarrow> cell_at ?d n \<le> cell_at ?d c + 1)"
    using fin by auto
  show ?thesis
    unfolding bfs_inv_def using f p1 p3 by simp
qed

lemma bfs_dist_bad:
  assumes o: "rect obs H W" and b: "\<not> goal_ok obs H W goal"
  shows "bfs_dist obs goal = Inr (full H W INF_VAL)"
proof (cases "0 < H")
  case False
  then show ?thesis using o by (simp add: bfs_dist_def Let_def rect_shape_H full_def)
next
  case True
  with o have sh: "shape_H obs = H" "shape_W obs = W"
    by (simp_all add: rect_shape_H rect_shape_W)
  show ?thesis
  proof (cases "0 \<le> fst goal \<and> fst goal < int W \<and> 0 \<le> snd goal \<and> snd goal < int H")
    case False
    then show ?thesis by (simp add: bfs_dist_def Let_def sh)
  next
    case True
    then have "inb H W (nat (fst goal), nat (snd goal))" by (auto simp: inb_def nat_less_iff)
    from get2_rect[OF o this] b True show ?thesis
      by (simp add: bfs_dist_def Let_def sh goal_ok_def)
  qed
qed

lemma bfs_dist_ok:
  assumes o: "rect obs H W" and g: "goal_ok obs H W goal"
  shows "\<exists>d. bfs_dist obs goal = Inr d \<and> bfs_inv obs H W (nat (fst goal), nat (snd goal)) d []"
proof -
  let ?g = "(nat (fst goal), nat (snd goal))"
  from g have gb: "inb H W ?g" and fg: "free obs H W ?g"
    by (auto simp: goal_ok_def inb_def free_def nat_less_iff)
  from g have "0 < H" by (simp add: goal_ok_def)
  with o have sh: "shape_H obs = H" "shape_W obs = W"
    by (simp_all add: rect_shape_H rect_shape_W)
  from bfs_loop_inv[OF o init_inv[OF o fg]] obtain d where
    d: "bfs_loop obs (set2 (full H W INF_VAL) (snd ?g) (fst ?g) 0) [?g] = Inr d"
    "bfs_inv obs H W ?g d []" by blast
  have "bfs_dist obs goal = Inr d"
    using g get2_rect[OF o gb] d(1)
    by (simp add: bfs_dist_def Let_def sh goal_ok_def del: bfs_loop.simps)
  with d(2) show ?thesis by blast
qed

text \<open>
  Claim C4. On an obstacle mask of shape \<open>H\<close> by \<open>W\<close>, \<open>_bfs_dist\<close> always returns
  (no error, the loop ends) an array of the same shape. When the goal lies inside the
  grid on a free cell, its entry is 0; when it lies outside or on an obstacle, the
  result is the array filled with the sentinel \<open>10^9\<close>. Every cell whose entry is below
  the sentinel, other than the goal, has a 4-neighbour inside the grid whose entry is
  exactly one less; and every cell that no path of free cells connects to the goal holds
  the sentinel.
\<close>

theorem bfs_distance_field:
  assumes "rect obstacles H W"
  shows "\<exists>d. bfs_dist obstacles goal = Inr d \<and> rect d H W
     \<and> (goal_ok obstacles H W goal \<longrightarrow> cell_at d (nat (fst goal), nat (snd goal)) = 0)
     \<and> (\<not> goal_ok obstacles H W goal \<longrightarrow> d = full H W INF_VAL)
     \<and> (\<forall>c. inb H W c \<and> cell_at d c < INF_VAL \<and> c \<noteq> (nat (fst goal), nat (snd goal)) \<longrightarrow>
           (\<exists>n. adj n c \<and> inb H W n \<and> cell_at d n + 1 = cell_at d c))
     \<and> (\<forall>c. inb H W c \<and> \<not> connected obstacles H W (nat (fst goal), nat (snd goal)) c \<longrightarrow>
           cell_at d c = INF_VAL)"
proof (cases "goal_ok obstacles H W goal")
  case False
  have e: "bfs_dist obstacles goal = Inr (full H W INF_VAL)"
    using assms False by (rule bfs_dist_bad)
  have a: "\<forall>c. inb H W c \<and> cell_at (full H W INF_VAL) c < INF_VAL
        \<and> c \<noteq> (nat (fst goal), nat (snd goal)) \<longrightarrow>
           (\<exists>n. adj n c \<and> inb H W n
              \<and> cell_at (full H W INF_VAL) n + 1 = cell_at (full H W INF_VAL) c)"
    using cell_at_full[of H W _ INF_VAL] by auto
  have b: "\<forall>c. inb H W c \<and> \<not> connected obstacles H W (nat (fst goal), nat (snd goal)) c \<longrightarrow>
           cell_at (full H W INF_VAL) c = INF_VAL"
    using cell_at_full[of H W _ INF_VAL] by auto
  from e False a b rect_full[of H W INF_VAL] show ?thesis by blast
next
  case True
  let ?g = "(nat (fst goal), nat (snd goal))"
  from bfs_dist_ok[OF assms True] obtain d where
    d: "bfs_dist obstacles goal = Inr d" "bfs_inv obstacles H W ?g d []" by blast
  note f = bfs_invD(1)[OF d(2)]
  note fd = field_okD[OF f]
  have p4: "\<forall>c. inb H W c \<and> cell_at d c < INF_VAL \<and> c \<noteq> ?g \<longrightarrow>
           (\<exists>n. adj n c \<and> inb H W n \<and> cell_at d n + 1 = cell_at d c)"
    using fd(6) by blast
  have p5: "\<forall>c. inb H W c \<and> \<not> connected obstacles H W ?g c \<longrightarrow> cell_at d c = INF_VAL"
  proof (intro allI impI)
    fix c assume c: "inb H W c \<and> \<not> connected obstacles H W ?g c"
    then have "\<not> cell_at d c < INF_VAL" using finite_connected[OF f, of c] by blast
    with fd(4)[of c] c show "cell_at d c = INF_VAL" by simp
  qed
  from d(1) fd(1) fd(3) True p4 p5 show ?thesis by blast
qed


text \<open>
  Evaluation of the search on small grids keeps the sentinel folded; these facts decide
  the comparisons with it.
\<close>

lemma inf_gt: "n < 1000 \<Longrightarrow> n < INF_VAL"
  by (simp add: INF_VAL_def)

lemma inf_not_lt: "n < 1000 \<Longrightarrow> \<not> INF_VAL < n"
  by (simp add: INF_VAL_def)

lemma inf_not_le: "n < 1000 \<Longrightarrow> \<not> INF_VAL \<le> n"
  by (simp add: INF_VAL_def)

lemmas bfs_eval = bfs_dist_def full_def shape_H_def shape_W_def get2_def set2_def bfs_step_def
  relax_def Let_def inf_gt inf_not_lt inf_not_le

lemma walled_grid_field:
  "bfs_dist [[False, True, False], [False, True, False]] (0, 0) =
     Inr [[0, INF_VAL, INF_VAL], [1, INF_VAL, INF_VAL]]"
  by (simp add: bfs_eval)

lemma walled_grid_connected:
  "connected [[False, True, False], [False, True, False]] 2 3 (0, 0) c \<Longrightarrow> fst c = 0"
proof (induction rule: connected.induct)
  case start
  then show ?case by simp
next
  case (step c n)
  from step.hyps(3) have "fst n \<noteq> 1"
    by (cases n) (auto simp: free_def inb_def cell_at_def less_Suc_eq numeral_2_eq_2)
  with step.hyps(2) step.IH show ?case by (auto simp: adj_def)
qed

theorem bfs_distance_field_witness:
  "rect [[False, True, False], [False, True, False]] 2 3
   \<and> goal_ok [[False, True, False], [False, True, False]] 2 3 (0, 0)
   \<and> \<not> goal_ok [[False, True, False], [False, True, False]] 2 3 (1, 0)
   \<and> \<not> connected [[False, True, False], [False, True, False]] 2 3 (0, 0) (2, 0)
   \<and> bfs_dist [[False, True, False], [False, True, False]] (0, 0) =
        Inr [[0, INF_VAL, INF_VAL], [1, INF_VAL, INF_VAL]]
   \<and> cell_at [[0, INF_VAL, INF_VAL], [1, INF_VAL, INF_VAL]] (0, 0) = 0
   \<and> (\<exists>n. adj n (0, 1) \<and> inb 2 3 n
        \<and> cell_at [[0, INF_VAL, INF_VAL], [1, INF_VAL, INF_VAL]] n + 1 =
            cell_at [[0, INF_VAL, INF_VAL], [1, INF_VAL, INF_VAL]] (0, 1))
   \<and> cell_at [[0, INF_VAL, INF_VAL], [1, INF_VAL, INF_VAL]] (2, 0) = INF_VAL
   \<and> bfs_dist [[False, True, False], [False, True, False]] (1, 0) = Inr (full 2 3 INF_VAL)"
proof -
  let ?obs = "[[False, True, False], [False, True, False]]"
  let ?d = "[[0, INF_VAL, INF_VAL], [1, INF_VAL, INF_VAL]]"
  have r: "rect ?obs 2 3" by (simp add: rect_def)
  have ok: "goal_ok ?obs 2 3 (0, 0)" by (simp add: goal_ok_def cell_at_def)
  have bad: "\<not> goal_ok ?obs 2 3 (1, 0)" by (simp add: goal_ok_def cell_at_def)
  have nc: "\<not> connected ?obs 2 3 (0, 0) (2, 0)"
    using walled_grid_connected[of "(2, 0)"] by auto
  from bfs_distance_field[OF r, of "(0, 0)"] obtain d where
    d: "bfs_dist ?obs (0, 0) = Inr d"
    "goal_ok ?obs 2 3 (0, 0) \<longrightarrow> cell_at d (nat (fst (0 :: int, 0 :: int)), nat (snd (0 :: int, 0 :: int))) = 0"
    "\<forall>c. inb 2 3 c \<and> cell_at d c < INF_VAL
        \<and> c \<noteq> (nat (fst (0 :: int, 0 :: int)), nat (snd (0 :: int, 0 :: int))) \<longrightarrow>
       (\<exists>n. adj n c \<and> inb 2 3 n \<and> cell_at d n + 1 = cell_at d c)"
    "\<forall>c. inb 2 3 c
        \<and> \<not> connected ?obs 2 3 (nat (fst (0 :: int, 0 :: int)), nat (snd (0 :: int, 0 :: int))) c \<longrightarrow>
       cell_at d c = INF_VAL"
    by blast
  from d(1) have dd: "d = ?d" by (simp add: walled_grid_field)
  have z: "cell_at ?d (0, 0) = 0" using d(2) ok unfolding dd by simp
  have "inb 2 3 (0, 1) \<and> cell_at ?d (0, 1) < INF_VAL \<and> (0, 1) \<noteq> (0 :: nat, 0 :: nat)"
    by (simp add: inb_def cell_at_def inf_gt)
  with d(3) have p: "\<exists>n. adj n (0, 1) \<and> inb 2 3 n \<and> cell_at ?d n + 1 = cell_at ?d (0, 1)"
    unfolding dd by simp
  have "inb 2 3 (2, 0)" by (simp add: inb_def)
  with d(4) nc have u: "cell_at ?d (2, 0) = INF_VAL" unfolding dd by simp
  from bfs_distance_field[OF r, of "(1, 0)"] bad
  have b: "bfs_dist ?obs (1, 0) = Inr (full 2 3 INF_VAL)" by auto
  from r ok bad nc walled_grid_field z p u b show ?thesis by blast
qed


section \<open>Properties of the heatmaps\<close>

lemma sum_list_update_int: "k < length xs \<Longrightarrow> sum_list (xs[k := v]) = sum_list xs - xs ! k + (v :: int)"
  by (induction xs arbitrary: k) (auto split: nat.splits)

lemma sum2_set2:
  assumes "y < length a" "x < length (a ! y)"
  shows "sum2 (set2 a y x v) = sum2 a - a ! y ! x + v"
proof -
  have "sum_list ((a ! y)[x := v]) = sum_list (a ! y) - a ! y ! x + v"
    using assms(2) by (rule sum_list_update_int)
  then show ?thesis
    using assms(1) by (simp add: sum2_def set2_def map_update sum_list_update_int)
qed

lemma inc2_rect:
  assumes "rect a h w" "y < h" "x < w"
  shows "\<exists>a'. inc2 a y x = Inr a' \<and> rect a' h w \<and> sum2 a' = sum2 a + 1"
proof -
  from assms have yx: "y < length a" "x < length (a ! y)" by (simp_all add: rect_def)
  then have "inc2 a y x = Inr (set2 a y x (a ! y ! x + 1))"
    by (simp add: inc2_def get2_def)
  moreover have "rect (set2 a y x (a ! y ! x + 1)) h w" using assms(1) by (rule rect_set2)
  moreover have "sum2 (set2 a y x (a ! y ! x + 1)) = sum2 a + 1"
    using yx by (simp add: sum2_set2)
  ultimately show ?thesis by simp
qed

lemma in_grid_nat: "in_grid H W p \<Longrightarrow> nat (snd p) < nat H \<and> nat (fst p) < nat W"
  by (auto simp: in_grid_def)

lemma pos_at_mem: "pos_at paths t i = Inr p \<Longrightarrow> \<exists>row\<in>set paths. p \<in> set row"
proof -
  assume "pos_at paths t i = Inr p"
  then have "t < length paths" "i < length (paths ! t)" "p = paths ! t ! i"
    by (auto simp: pos_at_def nth_err_def split: if_splits sum.splits)
  then have "paths ! t \<in> set paths" "p \<in> set (paths ! t)" by simp_all
  then show ?thesis by blast
qed

lemma occ_body_sum:
  assumes "occ_body paths reach_t H W t i occ = Inr occ'" "rect occ (nat H) (nat W)"
    "i < length reach_t" "all_in_grid H W paths"
  shows "rect occ' (nat H) (nat W) \<and> sum2 occ' = sum2 occ + (if t \<le> reach_t ! i then 1 else 0)"
proof (cases "t \<le> reach_t ! i")
  case False
  with assms(1,2,3) show ?thesis by (simp add: occ_body_def nth_err_def)
next
  case True
  with assms(1,3) obtain p where p: "pos_at paths t i = Inr p"
    by (auto simp: occ_body_def nth_err_def split: sum.splits)
  with assms(4) have g: "in_grid H W p" using pos_at_mem[OF p] by (auto simp: all_in_grid_def)
  with assms(1,3) True p have "inc2 occ (nat (snd p)) (nat (fst p)) = Inr occ'"
    by (simp add: occ_body_def nth_err_def)
  with inc2_rect[OF assms(2), of "nat (snd p)" "nat (fst p)"] in_grid_nat[OF g] True
  show ?thesis by auto
qed

lemma occ_inner:
  assumes "all_in_grid H W paths"
  shows "for_each is (occ_body paths reach_t H W t) occ = Inr occ' \<Longrightarrow> rect occ (nat H) (nat W) \<Longrightarrow>
    \<forall>i\<in>set is. i < length reach_t \<Longrightarrow>
    rect occ' (nat H) (nat W)
    \<and> sum2 occ' = sum2 occ + (\<Sum>i\<leftarrow>is. if t \<le> reach_t ! i then 1 else 0)"
proof (induction "is" arbitrary: occ)
  case Nil
  then show ?case by simp
next
  case (Cons i "is")
  from Cons.prems(1) obtain o1 where o1: "occ_body paths reach_t H W t i occ = Inr o1"
    and r: "for_each is (occ_body paths reach_t H W t) o1 = Inr occ'"
    by (auto split: sum.splits)
  from occ_body_sum[OF o1 Cons.prems(2) _ assms] Cons.prems(3)
  have s1: "rect o1 (nat H) (nat W)" "sum2 o1 = sum2 occ + (if t \<le> reach_t ! i then 1 else 0)"
    by simp_all
  from Cons.IH[OF r s1(1)] Cons.prems(3) s1(2) show ?case by simp
qed

lemma occ_outer:
  assumes "all_in_grid H W paths" "\<forall>i\<in>set is. i < length reach_t"
  shows "for_each ts (\<lambda>t. for_each is (occ_body paths reach_t H W t)) occ = Inr occ' \<Longrightarrow>
    rect occ (nat H) (nat W) \<Longrightarrow>
    rect occ' (nat H) (nat W)
    \<and> sum2 occ' = sum2 occ + (\<Sum>t\<leftarrow>ts. \<Sum>i\<leftarrow>is. if t \<le> reach_t ! i then 1 else 0)"
proof (induction ts arbitrary: occ)
  case Nil
  then show ?case by simp
next
  case (Cons t ts)
  from Cons.prems(1) obtain o1 where o1: "for_each is (occ_body paths reach_t H W t) occ = Inr o1"
    and r: "for_each ts (\<lambda>t. for_each is (occ_body paths reach_t H W t)) o1 = Inr occ'"
    by (auto split: sum.splits)
  from occ_inner[OF assms(1) o1 Cons.prems(2) assms(2)]
  have s1: "rect o1 (nat H) (nat W)"
    "sum2 o1 = sum2 occ + (\<Sum>i\<leftarrow>is. if t \<le> reach_t ! i then 1 else 0)"
    by simp_all
  from Cons.IH[OF r s1(1)] s1(2) show ?case by simp
qed

lemma sum_list_upt: "sum_list (map f [0..<n]) = (\<Sum>i<n. f i)"
  by (induction n) simp_all

lemma count_le: "(\<Sum>t<T. if t \<le> r then 1 else 0) = int (min (r + 1) T)"
  by (induction T) auto

lemma sum_list_replicate_zero: "sum_list (replicate n (0 :: int)) = 0"
  by (induction n) simp_all

lemma sum2_zeros: "sum2 (zeros h w) = 0"
  by (simp add: sum2_def zeros_def sum_list_replicate_zero)

lemma occ_total:
  assumes "all_in_grid H W paths" "N \<le> length reach_t"
    "for_each [0..<T] (\<lambda>t. for_each [0..<N] (occ_body paths reach_t H W t)) (zeros (nat H) (nat W)) = Inr occ"
  shows "sum2 occ = (\<Sum>i<N. int (min (reach_t ! i + 1) T))"
proof -
  have "\<forall>i\<in>set [0..<N]. i < length reach_t" using assms(2) by simp
  from occ_outer[OF assms(1) this assms(3) rect_zeros]
  have "sum2 occ = (\<Sum>t\<leftarrow>[0..<T]. \<Sum>i\<leftarrow>[0..<N]. if t \<le> reach_t ! i then 1 else 0)"
    by (simp add: sum2_zeros)
  also have "\<dots> = (\<Sum>t<T. \<Sum>i<N. if t \<le> reach_t ! i then 1 else 0)"
    by (simp add: sum_list_upt)
  also have "\<dots> = (\<Sum>i<N. \<Sum>t<T. if t \<le> reach_t ! i then 1 else 0)"
    by (rule sum.swap)
  also have "\<dots> = (\<Sum>i<N. int (min (reach_t ! i + 1) T))"
    by (simp add: count_le)
  finally show ?thesis .
qed










lemma compute_parts_ex:
  assumes "compute_wait_collision_heatmaps paths goals H W obstacles = Inr (wm, cm, om, det)"
  shows "\<exists>obs reach_t cache s.
      obstacles = Some obs \<and> paths \<noteq> [] \<and> length goals = num_agents_of paths
    \<and> first_reach_times paths goals = Inr reach_t \<and> 0 \<le> H \<and> 0 \<le> W
    \<and> build_cache obs (remdups goals) Map.empty = Inr cache
    \<and> for_each [0..<length paths]
          (\<lambda>t. for_each [0..<num_agents_of paths] (occ_body paths reach_t H W t))
          (zeros (nat H) (nat W)) = Inr om
    \<and> for_each [0..<length paths - 1]
          (\<lambda>t. for_each [0..<num_agents_of paths] (wc_body paths goals reach_t H W obs cache t))
          \<lparr> wc_wait_map = zeros (nat H) (nat W), wc_collision_map = zeros (nat H) (nat W),
            wc_total_wait = 0, wc_total_blocked = 0 \<rparr> = Inr s
    \<and> wm = wc_wait_map s \<and> cm = wc_collision_map s
    \<and> det = \<lparr> det_T = length paths, det_N = num_agents_of paths, det_reach_t = reach_t,
              det_total_wait = wc_total_wait s, det_total_blocked = wc_total_blocked s \<rparr>"
  using assms unfolding compute_wait_collision_heatmaps_def Let_def
  by (simp split: option.splits if_splits sum.splits)

lemma scan_reach_range:
  "scan_reach rows i gi t0 = Inr r \<Longrightarrow> r = INF_VAL \<or> (t0 \<le> r \<and> r < t0 + length rows)"
proof (induction rows arbitrary: t0)
  case Nil
  then show ?case by simp
next
  case (Cons row rows)
  show ?case
  proof (cases "nth_err row i")
    case (Inl e)
    with Cons.prems show ?thesis by simp
  next
    case (Inr p)
    show ?thesis
    proof (cases "p = gi")
      case True
      with Inr Cons.prems show ?thesis by simp
    next
      case False
      with Inr Cons.prems have "scan_reach rows i gi (Suc t0) = Inr r" by simp
      from Cons.IH[OF this] show ?thesis by auto
    qed
  qed
qed

















lemma compute_parts:
  assumes "compute_wait_collision_heatmaps paths goals H W obstacles = Inr (wm, cm, om, det)"
  obtains obs reach_t cache s where
    "obstacles = Some obs" "paths \<noteq> []" "length goals = num_agents_of paths"
    "first_reach_times paths goals = Inr reach_t" "0 \<le> H" "0 \<le> W"
    "build_cache obs (remdups goals) Map.empty = Inr cache"
    "for_each [0..<length paths]
       (\<lambda>t. for_each [0..<num_agents_of paths] (occ_body paths reach_t H W t))
       (zeros (nat H) (nat W)) = Inr om"
    "for_each [0..<length paths - 1]
       (\<lambda>t. for_each [0..<num_agents_of paths] (wc_body paths goals reach_t H W obs cache t))
       \<lparr> wc_wait_map = zeros (nat H) (nat W), wc_collision_map = zeros (nat H) (nat W),
         wc_total_wait = 0, wc_total_blocked = 0 \<rparr> = Inr s"
    "wm = wc_wait_map s" "cm = wc_collision_map s"
    "det = \<lparr> det_T = length paths, det_N = num_agents_of paths, det_reach_t = reach_t,
             det_total_wait = wc_total_wait s, det_total_blocked = wc_total_blocked s \<rparr>"
  using compute_parts_ex[OF assms] by (elim exE conjE) (rule that; assumption)

text \<open>
  Claim C8. For every run that \<open>compute_wait_collision_heatmaps\<close> processes and whose
  positions all lie inside the grid, the occupancy map adds up to the sum over the agents
  of \<open>min (reach_time + 1) T\<close>: one count per timestep up to the reach time. An agent
  that reaches its goal does so at a time below \<open>T\<close> and contributes \<open>reach_time + 1\<close>;
  an agent that never reaches it contributes \<open>T\<close> (its reach time is the sentinel
  \<open>10^9\<close>, which is assumed not to be below \<open>T - 1\<close>).
\<close>

theorem occupancy_sum:
  assumes "compute_wait_collision_heatmaps paths goals H W obstacles = Inr (wm, cm, om, det)"
    and "all_in_grid H W paths"
  shows "sum2 om = (\<Sum>i<det_N det. int (min (det_reach_t det ! i + 1) (det_T det)))
    \<and> (\<forall>i<det_N det. reaches paths goals i \<longrightarrow>
          det_reach_t det ! i < det_T det
        \<and> min (det_reach_t det ! i + 1) (det_T det) = det_reach_t det ! i + 1)
    \<and> (det_T det \<le> INF_VAL + 1 \<longrightarrow>
         (\<forall>i<det_N det. \<not> reaches paths goals i \<longrightarrow>
            min (det_reach_t det ! i + 1) (det_T det) = det_T det))"
proof -
  from assms(1) obtain obs reach_t cache s where
    p: "obstacles = Some obs" "paths \<noteq> []" "length goals = num_agents_of paths"
    "first_reach_times paths goals = Inr reach_t" "0 \<le> H" "0 \<le> W"
    "build_cache obs (remdups goals) Map.empty = Inr cache"
    "for_each [0..<length paths]
       (\<lambda>t. for_each [0..<num_agents_of paths] (occ_body paths reach_t H W t))
       (zeros (nat H) (nat W)) = Inr om"
    "for_each [0..<length paths - 1]
       (\<lambda>t. for_each [0..<num_agents_of paths] (wc_body paths goals reach_t H W obs cache t))
       \<lparr> wc_wait_map = zeros (nat H) (nat W), wc_collision_map = zeros (nat H) (nat W),
         wc_total_wait = 0, wc_total_blocked = 0 \<rparr> = Inr s"
    "wm = wc_wait_map s" "cm = wc_collision_map s"
    "det = \<lparr> det_T = length paths, det_N = num_agents_of paths, det_reach_t = reach_t,
             det_total_wait = wc_total_wait s, det_total_blocked = wc_total_blocked s \<rparr>"
    by (rule compute_parts)
  have len: "length reach_t = num_agents_of paths"
    using p(4) by (rule first_reach_times_length)
  then have "num_agents_of paths \<le> length reach_t" by simp
  from occ_total[OF assms(2) this p(8)]
  have a: "sum2 om = (\<Sum>i<det_N det. int (min (det_reach_t det ! i + 1) (det_T det)))"
    by (simp add: p(12))
  have sc: "\<And>i. i < num_agents_of paths \<Longrightarrow>
      scan_reach paths i (goals ! i) 0 = Inr (reach_t ! i)"
    using first_reach_times_nth(3)[OF p(4)] .
  have b: "\<forall>i<det_N det. reaches paths goals i \<longrightarrow>
          det_reach_t det ! i < det_T det
        \<and> min (det_reach_t det ! i + 1) (det_T det) = det_reach_t det ! i + 1"
  proof (intro allI impI)
    fix i assume i: "i < det_N det" and r: "reaches paths goals i"
    from i have i': "i < num_agents_of paths" by (simp add: p(12))
    from scan_reach_lt[OF sc[OF i']] r have "reach_t ! i < INF_VAL"
      by (simp add: reaches_def)
    with scan_reach_range[OF sc[OF i']] have "reach_t ! i < length paths" by auto
    then show "det_reach_t det ! i < det_T det
        \<and> min (det_reach_t det ! i + 1) (det_T det) = det_reach_t det ! i + 1"
      by (simp add: p(12))
  qed
  have c: "det_T det \<le> INF_VAL + 1 \<longrightarrow>
         (\<forall>i<det_N det. \<not> reaches paths goals i \<longrightarrow>
            min (det_reach_t det ! i + 1) (det_T det) = det_T det)"
  proof (intro allI impI)
    fix i assume t: "det_T det \<le> INF_VAL + 1" and i: "i < det_N det"
      and r: "\<not> reaches paths goals i"
    from i have i': "i < num_agents_of paths" by (simp add: p(12))
    from scan_reach_lt[OF sc[OF i']] r have "\<not> reach_t ! i < INF_VAL"
      by (simp add: reaches_def)
    with t show "min (det_reach_t det ! i + 1) (det_T det) = det_T det"
      by (simp add: p(12))
  qed
  from a b c show ?thesis by blast
qed


text \<open>Evaluation of whole runs on small inputs.\<close>

lemma replicate_numeral: "replicate (numeral k) x = x # replicate (pred_numeral k) x"
  by (simp add: numeral_eq_Suc)

lemmas heatmap_eval = compute_wait_collision_heatmaps_def first_reach_times_def num_agents_of_def
  nth_err_def pos_at_def occ_body_def wc_body_def wait_part_def pressure_part_def
  intend_body_def nbs_def inc2_def in_grid_def zeros_def replicate_numeral

lemma demo_run:
  "compute_wait_collision_heatmaps [[(0,0)], [(0,0)], [(1,0)]] [(1,0)] 1 2 (Some [[False, False]]) =
     Inr ([[1, 0]], [[0, 1]], [[2, 1]],
          \<lparr> det_T = 3, det_N = 1, det_reach_t = [2], det_total_wait = 1, det_total_blocked = 1 \<rparr>)"
  by (simp add: heatmap_eval bfs_eval)

lemma outside_run:
  "compute_wait_collision_heatmaps [[(5,5)], [(5,5)]] [(0,0)] 1 1 (Some [[False]]) =
     Inr ([[0]], [[0]], [[0]],
          \<lparr> det_T = 2, det_N = 1, det_reach_t = [INF_VAL], det_total_wait = 1,
            det_total_blocked = 0 \<rparr>)"
  by (simp add: heatmap_eval bfs_eval)


lemma stuck_run:
  "compute_wait_collision_heatmaps [[(0,0)], [(0,0)]] [(1,0)] 1 2 (Some [[False, False]]) =
     Inr ([[1, 0]], [[0, 1]], [[2, 0]],
          \<lparr> det_T = 2, det_N = 1, det_reach_t = [INF_VAL], det_total_wait = 1,
            det_total_blocked = 1 \<rparr>)"
  by (simp add: heatmap_eval bfs_eval)

theorem occupancy_sum_witness:
  "all_in_grid 1 2 [[(0,0)], [(0,0)], [(1,0)]]
   \<and> compute_wait_collision_heatmaps [[(0,0)], [(0,0)], [(1,0)]] [(1,0)] 1 2
        (Some [[False, False]]) =
      Inr ([[1, 0]], [[0, 1]], [[2, 1]],
           \<lparr> det_T = 3, det_N = 1, det_reach_t = [2], det_total_wait = 1,
             det_total_blocked = 1 \<rparr>)
   \<and> sum2 [[2, 1]] = (\<Sum>i<(1::nat). int (min ([2] ! i + 1) 3))
   \<and> all_in_grid 1 2 [[(0,0)], [(0,0)]]
   \<and> compute_wait_collision_heatmaps [[(0,0)], [(0,0)]] [(1,0)] 1 2 (Some [[False, False]]) =
      Inr ([[1, 0]], [[0, 1]], [[2, 0]],
           \<lparr> det_T = 2, det_N = 1, det_reach_t = [INF_VAL], det_total_wait = 1,
             det_total_blocked = 1 \<rparr>)
   \<and> sum2 [[2, 0]] = (\<Sum>i<(1::nat). int (min ([INF_VAL] ! i + 1) 2))"
proof -
  have g: "all_in_grid 1 2 [[(0,0)], [(0,0)], [(1,0)]]"
    by (simp add: all_in_grid_def in_grid_def)
  have g2: "all_in_grid 1 2 [[(0,0)], [(0,0)]]"
    by (simp add: all_in_grid_def in_grid_def)
  from occupancy_sum[OF demo_run g]
  have a: "sum2 [[2, 1]] = (\<Sum>i<(1::nat). int (min ([2] ! i + 1) 3))" by simp
  from occupancy_sum[OF stuck_run g2]
  have b: "sum2 [[2, 0]] = (\<Sum>i<(1::nat). int (min ([INF_VAL] ! i + 1) 2))" by simp
  from g demo_run a g2 stuck_run b show ?thesis by blast
qed






end
